theory Spec2Isabelle
  imports Main "HOL-Library.Word" "HOL-Library.List_Lexorder"
begin

unbundle bit_operations_syntax

text \<open>
  A model of the write-ahead log, the memtable and the recovery of a log-structured
  key/value storage engine written in Go, and proofs of properties of its specification.
  Each Go function is a function of the same name on an explicit state.
\<close>

section \<open>Bytes and little-endian integers\<close>

text \<open>
  A Go \<^verbatim>\<open>[]byte\<close> is a list of 8-bit words; the nil slice and the empty slice are both
  the empty list (they have the same length and the same bytes). Lengths are natural
  numbers (Go's \<^verbatim>\<open>int\<close> is 64 bits wide and a length never overflows it).
  \<^verbatim>\<open>binary.LittleEndian\<close> stores the least significant byte first.
\<close>

type_synonym bytes = "8 word list"

definition PutUint16 :: "16 word \<Rightarrow> bytes" where
  "PutUint16 v = [ucast v, ucast (drop_bit 8 v)]"

definition Uint16 :: "bytes \<Rightarrow> 16 word" where
  "Uint16 b = ucast (b ! 0) OR push_bit 8 (ucast (b ! 1))"

definition PutUint32 :: "32 word \<Rightarrow> bytes" where
  "PutUint32 v = [ucast v, ucast (drop_bit 8 v), ucast (drop_bit 16 v), ucast (drop_bit 24 v)]"

definition Uint32 :: "bytes \<Rightarrow> 32 word" where
  "Uint32 b = ucast (b ! 0) OR push_bit 8 (ucast (b ! 1)) OR push_bit 16 (ucast (b ! 2))
     OR push_bit 24 (ucast (b ! 3))"

definition PutUint64 :: "64 word \<Rightarrow> bytes" where
  "PutUint64 v = [ucast v, ucast (drop_bit 8 v), ucast (drop_bit 16 v), ucast (drop_bit 24 v),
     ucast (drop_bit 32 v), ucast (drop_bit 40 v), ucast (drop_bit 48 v), ucast (drop_bit 56 v)]"

definition Uint64 :: "bytes \<Rightarrow> 64 word" where
  "Uint64 b = ucast (b ! 0) OR push_bit 8 (ucast (b ! 1)) OR push_bit 16 (ucast (b ! 2))
     OR push_bit 24 (ucast (b ! 3)) OR push_bit 32 (ucast (b ! 4)) OR push_bit 40 (ucast (b ! 5))
     OR push_bit 48 (ucast (b ! 6)) OR push_bit 56 (ucast (b ! 7))"

text \<open>
  \<^verbatim>\<open>crc32.ChecksumIEEE\<close>: the reflected CRC-32 with polynomial \<^verbatim>\<open>0xEDB88320\<close>, initial
  value and final complement \<^verbatim>\<open>0xFFFFFFFF\<close>, computed bit by bit.
\<close>

definition crc_step :: "32 word \<Rightarrow> 32 word" where
  "crc_step c = (if bit c 0 then drop_bit 1 c XOR 0xEDB88320 else drop_bit 1 c)"

definition crc_byte :: "32 word \<Rightarrow> 8 word \<Rightarrow> 32 word" where
  "crc_byte c b = (crc_step ^^ 8) (c XOR ucast b)"

definition ChecksumIEEE :: "bytes \<Rightarrow> 32 word" where
  "ChecksumIEEE data = NOT (foldl crc_byte 0xFFFFFFFF data)"

section \<open>The write-ahead log: constants and state (package wal)\<close>

definition RecordTypeFull :: "8 word" where "RecordTypeFull = 1"
definition RecordTypeFirst :: "8 word" where "RecordTypeFirst = 2"
definition RecordTypeMiddle :: "8 word" where "RecordTypeMiddle = 3"
definition RecordTypeLast :: "8 word" where "RecordTypeLast = 4"

definition OpTypePut :: "8 word" where "OpTypePut = 1"
definition OpTypeDelete :: "8 word" where "OpTypeDelete = 2"
definition OpTypeMerge :: "8 word" where "OpTypeMerge = 3"

definition HeaderSize :: nat where "HeaderSize = 7"
definition MaxRecordSize :: nat where "MaxRecordSize = 32 * 1024"

text \<open>\<^verbatim>\<open>math.MaxUint64\<close> is the 64-bit word \<open>- 1\<close>.\<close>

definition MaxSequenceNumber :: "64 word" where
  "MaxSequenceNumber = - 1 - 1000000"

definition SequenceWarningThreshold :: "64 word" where
  "SequenceWarningThreshold = - 1 - 10000000"

datatype wal_error =
    ErrCorruptRecord
  | ErrInvalidRecordType
  | ErrInvalidOpType
  | ErrWALClosed
  | ErrWALRotating
  | ErrWALFull
  | ErrSequenceOverflow
  | RecordTooLarge nat
  | WriteHeaderFailed
  | WritePayloadFailed
  | FlushFailed
  | SyncFailed
  | FlushBeforeBatchFailed
  | WriteEntryFailed nat wal_error
  | RawRecordTooSmall nat
  | RawRecordSizeMismatch nat nat
  | WriteRawFailed wal_error
  | FlushDuringCloseFailed
  | SyncDuringCloseFailed
  | CloseFileFailed
  | PanicIndexOutOfRange

record Entry =
  SequenceNumber :: "64 word"
  Type :: "8 word"
  Key :: bytes
  Value :: bytes
  rawBytes :: bytes

datatype wal_status = WALStatusActive | WALStatusRotating | WALStatusClosed

text \<open>
  Of the configuration the log reads the sync mode and the batch threshold (the three
  modes are the cases of the switch in \<^verbatim>\<open>maybeSync\<close>), and recovery reads the number
  and the size of the memtables.
\<close>

datatype sync_mode = SyncNone | SyncBatch | SyncImmediate

record Config =
  WALSyncMode :: sync_mode
  WALSyncBytes :: int
  MaxMemTables :: int
  MemTableSize :: int

text \<open>
  What an observer is told: \<^verbatim>\<open>OnWALEntryWritten\<close>, \<^verbatim>\<open>OnWALBatchWritten\<close> and
  \<^verbatim>\<open>OnWALSync\<close>. The state keeps the calls in order.
\<close>

datatype notification =
    OnWALEntryWritten Entry
  | OnWALBatchWritten "64 word" "Entry list"
  | OnWALSync "64 word"

text \<open>
  The state of a \<^verbatim>\<open>WAL\<close> value. The \<^verbatim>\<open>bufio.Writer\<close> is its buffered bytes, its
  capacity and its sticky error; the \<^verbatim>\<open>os.File\<close> is the bytes handed to the operating
  system, together with a schedule of faults: each write, sync or close of the file takes
  the next flag of the schedule and fails when it is \<open>True\<close> (an exhausted schedule means
  no more faults). \<open>warnings\<close> counts the calls of \<^verbatim>\<open>log.Warn\<close>. The mutexes, the directory
  name and the time of the last sync are left out.
\<close>

record WAL =
  cfg :: Config
  nextSequence :: "64 word"
  bytesWritten :: int
  batchByteSize :: int
  status :: wal_status
  overflowWarning :: bool
  writer_buf :: bytes
  writer_size :: nat
  writer_err :: bool
  file_data :: bytes
  file_faults :: "bool list"
  warnings :: nat
  notifications :: "notification list"

definition NewWAL :: "Config \<Rightarrow> bool list \<Rightarrow> WAL" where
  "NewWAL c faults = \<lparr>cfg = c, nextSequence = 1, bytesWritten = 0, batchByteSize = 0,
     status = WALStatusActive, overflowWarning = False, writer_buf = [],
     writer_size = 64 * 1024, writer_err = False, file_data = [], file_faults = faults,
     warnings = 0, notifications = []\<rparr>"

section \<open>The file and the buffered writer\<close>

definition next_fault :: "WAL \<Rightarrow> bool \<times> WAL" where
  "next_fault w = (case file_faults w of [] \<Rightarrow> (False, w)
     | b # bs \<Rightarrow> (b, w\<lparr>file_faults := bs\<rparr>))"

text \<open>\<^verbatim>\<open>os.File.Write\<close>, \<^verbatim>\<open>Sync\<close> and \<^verbatim>\<open>Close\<close>: the flag returned says whether the call succeeded.\<close>

definition file_Write :: "WAL \<Rightarrow> bytes \<Rightarrow> bool \<times> WAL" where
  "file_Write w p = (case next_fault w of
       (True, w') \<Rightarrow> (False, w')
     | (False, w') \<Rightarrow> (True, w'\<lparr>file_data := file_data w' @ p\<rparr>))"

definition file_Sync :: "WAL \<Rightarrow> bool \<times> WAL" where
  "file_Sync w = (case next_fault w of (b, w') \<Rightarrow> (\<not> b, w'))"

definition file_Close :: "WAL \<Rightarrow> bool \<times> WAL" where
  "file_Close w = (case next_fault w of (b, w') \<Rightarrow> (\<not> b, w'))"

text \<open>\<^verbatim>\<open>bufio.Writer.Flush\<close>: hands the buffered bytes to the file; a failure is remembered.\<close>

definition bufio_Flush :: "WAL \<Rightarrow> bool \<times> WAL" where
  "bufio_Flush w =
     (if writer_err w then (False, w)
      else if writer_buf w = [] then (True, w)
      else (case file_Write w (writer_buf w) of
              (True, w') \<Rightarrow> (True, w'\<lparr>writer_buf := []\<rparr>)
            | (False, w') \<Rightarrow> (False, w'\<lparr>writer_err := True\<rparr>)))"

definition bufio_Available :: "WAL \<Rightarrow> nat" where
  "bufio_Available w = writer_size w - length (writer_buf w)"

text \<open>
  \<^verbatim>\<open>bufio.Writer.Write\<close>: data that fits is copied into the buffer. Data that does not fit
  goes straight to the file when the buffer is empty; otherwise the buffer is filled and
  flushed first, and the rest is written directly when it is larger than the whole buffer
  and buffered when not (the library's loop runs at most twice).
\<close>

definition bufio_Write :: "WAL \<Rightarrow> bytes \<Rightarrow> bool \<times> WAL" where
  "bufio_Write w p =
     (if writer_err w then (False, w)
      else if length p \<le> bufio_Available w then (True, w\<lparr>writer_buf := writer_buf w @ p\<rparr>)
      else if writer_buf w = [] then
        (case file_Write w p of
           (True, w') \<Rightarrow> (True, w')
         | (False, w') \<Rightarrow> (False, w'\<lparr>writer_err := True\<rparr>))
      else
        (let n = bufio_Available w;
             w1 = w\<lparr>writer_buf := writer_buf w @ take n p\<rparr>;
             rest = drop n p
         in case bufio_Flush w1 of
              (False, w2) \<Rightarrow> (False, w2)
            | (True, w2) \<Rightarrow>
                if length rest \<le> bufio_Available w2
                then (True, w2\<lparr>writer_buf := writer_buf w2 @ rest\<rparr>)
                else (case file_Write w2 rest of
                        (True, w3) \<Rightarrow> (True, w3)
                      | (False, w3) \<Rightarrow> (False, w3\<lparr>writer_err := True\<rparr>))))"

section \<open>Writing records\<close>

definition writeRecordData :: "WAL \<Rightarrow> bytes \<Rightarrow> bytes \<Rightarrow> wal_error option \<times> WAL" where
  "writeRecordData w header payload =
     (case bufio_Write w header of
        (False, w1) \<Rightarrow> (Some WriteHeaderFailed, w1)
      | (True, w1) \<Rightarrow>
          (case bufio_Write w1 payload of
             (False, w2) \<Rightarrow> (Some WritePayloadFailed, w2)
           | (True, w2) \<Rightarrow>
               (None, w2\<lparr>bytesWritten := bytesWritten w2 + int (length header + length payload),
                         batchByteSize := batchByteSize w2 + int (length header + length payload)\<rparr>)))"

definition record_header :: "8 word \<Rightarrow> bytes \<Rightarrow> bytes" where
  "record_header recordType data =
     PutUint32 (ChecksumIEEE data) @ PutUint16 (of_nat (length data)) @ [recordType]"

definition writeRawRecord :: "WAL \<Rightarrow> 8 word \<Rightarrow> bytes \<Rightarrow> wal_error option \<times> WAL" where
  "writeRawRecord w recordType data =
     (if length data > MaxRecordSize then (Some (RecordTooLarge (length data)), w)
      else writeRecordData w (record_header recordType data) data)"

text \<open>The size of the logical payload, as \<^verbatim>\<open>Append\<close> and \<^verbatim>\<open>writeRecord\<close> compute it.\<close>

definition entrySize :: "8 word \<Rightarrow> bytes \<Rightarrow> bytes \<Rightarrow> nat" where
  "entrySize entryType key val =
     1 + 8 + 4 + length key + (if entryType \<noteq> OpTypeDelete then 4 + length val else 0)"

definition entry_payload :: "8 word \<Rightarrow> 64 word \<Rightarrow> bytes \<Rightarrow> bytes \<Rightarrow> bytes" where
  "entry_payload entryType seqNum key val =
     [entryType] @ PutUint64 seqNum @ PutUint32 (of_nat (length key)) @ key @
     (if entryType \<noteq> OpTypeDelete then PutUint32 (of_nat (length val)) @ val else [])"

definition writeRecord ::
  "WAL \<Rightarrow> 8 word \<Rightarrow> 8 word \<Rightarrow> 64 word \<Rightarrow> bytes \<Rightarrow> bytes \<Rightarrow> wal_error option \<times> WAL" where
  "writeRecord w recordType entryType seqNum key val =
     (if entrySize entryType key val > MaxRecordSize
      then (Some (RecordTooLarge (entrySize entryType key val)), w)
      else writeRawRecord w recordType (entry_payload entryType seqNum key val))"

text \<open>
  The loop of \<^verbatim>\<open>writeFragmentedRecord\<close> that writes the Middle fragments: it returns the
  bytes still to be written.
\<close>

function write_middles :: "WAL \<Rightarrow> bytes \<Rightarrow> wal_error option \<times> WAL \<times> bytes" where
  "write_middles w remaining =
     (if length remaining > MaxRecordSize then
        (case writeRawRecord w RecordTypeMiddle (take MaxRecordSize remaining) of
           (Some e, w') \<Rightarrow> (Some e, w', drop MaxRecordSize remaining)
         | (None, w') \<Rightarrow> write_middles w' (drop MaxRecordSize remaining))
      else (None, w, remaining))"
  by pat_completeness auto
termination
  by (relation "measure (\<lambda>(w, remaining). length remaining)") (auto simp: MaxRecordSize_def)

declare write_middles.simps [simp del]

definition first_fragment :: "8 word \<Rightarrow> 64 word \<Rightarrow> bytes \<Rightarrow> bytes" where
  "first_fragment entryType seqNum key =
     [entryType] @ PutUint64 seqNum @ PutUint32 (of_nat (length key)) @
     take (min (length key) (MaxRecordSize - (1 + 8 + 4))) key"

definition remaining_data :: "8 word \<Rightarrow> bytes \<Rightarrow> bytes \<Rightarrow> bytes" where
  "remaining_data entryType key val =
     (let keyInFirst = min (length key) (MaxRecordSize - (1 + 8 + 4))
      in (if keyInFirst < length key then drop keyInFirst key else []) @
         (if entryType \<noteq> OpTypeDelete then PutUint32 (of_nat (length val)) @ val else []))"

definition writeFragmentedRecord ::
  "WAL \<Rightarrow> 8 word \<Rightarrow> 64 word \<Rightarrow> bytes \<Rightarrow> bytes \<Rightarrow> wal_error option \<times> WAL" where
  "writeFragmentedRecord w entryType seqNum key val =
     (case writeRawRecord w RecordTypeFirst (first_fragment entryType seqNum key) of
        (Some e, w1) \<Rightarrow> (Some e, w1)
      | (None, w1) \<Rightarrow>
          (case write_middles w1 (remaining_data entryType key val) of
             (Some e, w2, remaining) \<Rightarrow> (Some e, w2)
           | (None, w2, remaining) \<Rightarrow>
               if length remaining > 0 then writeRawRecord w2 RecordTypeLast remaining
               else (None, w2)))"

section \<open>Syncing\<close>

definition syncLocked :: "WAL \<Rightarrow> wal_error option \<times> WAL" where
  "syncLocked w =
     (if status w = WALStatusClosed then (Some ErrWALClosed, w)
      else if status w = WALStatusRotating then (Some ErrWALRotating, w)
      else (case bufio_Flush w of
              (False, w1) \<Rightarrow> (Some FlushFailed, w1)
            | (True, w1) \<Rightarrow>
                (case file_Sync w1 of
                   (False, w2) \<Rightarrow> (Some SyncFailed, w2)
                 | (True, w2) \<Rightarrow>
                     (None, w2\<lparr>batchByteSize := 0,
                               notifications := notifications w2 @ [OnWALSync (nextSequence w2 - 1)]\<rparr>))))"

definition maybeSync :: "WAL \<Rightarrow> wal_error option \<times> WAL" where
  "maybeSync w =
     (let needSync = (case WALSyncMode (cfg w) of
                        SyncImmediate \<Rightarrow> True
                      | SyncBatch \<Rightarrow> batchByteSize w \<ge> WALSyncBytes (cfg w)
                      | SyncNone \<Rightarrow> False)
      in if needSync then syncLocked w else (None, w))"

definition Sync :: "WAL \<Rightarrow> wal_error option \<times> WAL" where
  "Sync w = syncLocked w"

section \<open>The append family\<close>

definition valid_op :: "8 word \<Rightarrow> bool" where
  "valid_op entryType \<longleftrightarrow>
     \<not> (entryType \<noteq> OpTypePut \<and> entryType \<noteq> OpTypeDelete \<and> entryType \<noteq> OpTypeMerge)"

text \<open>The overflow warning, logged once: the test of the flag and the call of \<^verbatim>\<open>log.Warn\<close>.\<close>

definition warn_once :: "64 word \<Rightarrow> WAL \<Rightarrow> WAL" where
  "warn_once s w =
     (if s \<ge> SequenceWarningThreshold \<and> \<not> overflowWarning w
      then w\<lparr>overflowWarning := True, warnings := warnings w + 1\<rparr> else w)"

text \<open>
  The common tail of \<^verbatim>\<open>Append\<close> and \<^verbatim>\<open>AppendWithSequence\<close>: encode and write the entry
  (one Full record, or fragments), notify the observers, sync if needed.
\<close>

definition write_entry ::
  "WAL \<Rightarrow> 8 word \<Rightarrow> 64 word \<Rightarrow> bytes \<Rightarrow> bytes \<Rightarrow> (wal_error + 64 word) \<times> WAL" where
  "write_entry w entryType seqNum key val =
     (case (if entrySize entryType key val \<le> MaxRecordSize
            then writeRecord w RecordTypeFull entryType seqNum key val
            else writeFragmentedRecord w entryType seqNum key val) of
        (Some e, w1) \<Rightarrow> (Inl e, w1)
      | (None, w1) \<Rightarrow>
          (let entry = \<lparr>SequenceNumber = seqNum, Type = entryType, Key = key, Value = val,
                        rawBytes = []\<rparr>;
               w2 = w1\<lparr>notifications := notifications w1 @ [OnWALEntryWritten entry]\<rparr>
           in case maybeSync w2 of
                (Some e, w3) \<Rightarrow> (Inl e, w3)
              | (None, w3) \<Rightarrow> (Inr seqNum, w3)))"

definition Append :: "WAL \<Rightarrow> 8 word \<Rightarrow> bytes \<Rightarrow> bytes \<Rightarrow> (wal_error + 64 word) \<times> WAL" where
  "Append w entryType key val =
     (if status w = WALStatusClosed then (Inl ErrWALClosed, w)
      else if status w = WALStatusRotating then (Inl ErrWALRotating, w)
      else if \<not> valid_op entryType then (Inl ErrInvalidOpType, w)
      else if nextSequence w \<ge> MaxSequenceNumber then (Inl ErrSequenceOverflow, w)
      else
        (let w1 = warn_once (nextSequence w) w;
             seqNum = nextSequence w1;
             w2 = w1\<lparr>nextSequence := seqNum + 1\<rparr>
         in write_entry w2 entryType seqNum key val))"

definition AppendWithSequence ::
  "WAL \<Rightarrow> 8 word \<Rightarrow> bytes \<Rightarrow> bytes \<Rightarrow> 64 word \<Rightarrow> (wal_error + 64 word) \<times> WAL" where
  "AppendWithSequence w entryType key val sequenceNumber =
     (if status w = WALStatusClosed then (Inl ErrWALClosed, w)
      else if status w = WALStatusRotating then (Inl ErrWALRotating, w)
      else if \<not> valid_op entryType then (Inl ErrInvalidOpType, w)
      else if sequenceNumber \<ge> MaxSequenceNumber then (Inl ErrSequenceOverflow, w)
      else
        (let seqNum = sequenceNumber;
             w2 = (if seqNum \<ge> nextSequence w
                   then (warn_once (seqNum + 1) w)\<lparr>nextSequence := seqNum + 1\<rparr>
                   else w)
         in write_entry w2 entryType seqNum key val))"

text \<open>
  \<^verbatim>\<open>AppendExactBytes\<close> writes an already framed record; the payload length declared in
  its header is the 16-bit little-endian integer at bytes 4 and 5. Reading \<^verbatim>\<open>payload[0]\<close> for the
  notification panics when the payload is empty, after the record has been written.
\<close>

definition declaredPayloadSize :: "bytes \<Rightarrow> nat" where
  "declaredPayloadSize raw = unat (Uint16 (take 2 (drop 4 raw)))"

definition AppendExactBytes :: "WAL \<Rightarrow> bytes \<Rightarrow> 64 word \<Rightarrow> (wal_error + 64 word) \<times> WAL" where
  "AppendExactBytes w raw seqNum =
     (if status w = WALStatusClosed then (Inl ErrWALClosed, w)
      else if status w = WALStatusRotating then (Inl ErrWALRotating, w)
      else if length raw < HeaderSize then (Inl (RawRecordTooSmall (length raw)), w)
      else
        (let payloadSize = declaredPayloadSize raw
         in if length raw \<noteq> HeaderSize + payloadSize
            then (Inl (RawRecordSizeMismatch payloadSize (length raw)), w)
            else
              (let w1 = (if seqNum \<ge> nextSequence w then w\<lparr>nextSequence := seqNum + 1\<rparr> else w);
                   header = take HeaderSize raw;
                   payload = drop HeaderSize raw
               in case writeRecordData w1 header payload of
                    (Some e, w2) \<Rightarrow> (Inl (WriteRawFailed e), w2)
                  | (None, w2) \<Rightarrow>
                      (case payload of
                         [] \<Rightarrow> (Inl PanicIndexOutOfRange, w2)
                       | t # _ \<Rightarrow>
                           (let entry = \<lparr>SequenceNumber = seqNum, Type = t, Key = [], Value = [],
                                         rawBytes = []\<rparr>;
                                w3 = w2\<lparr>notifications := notifications w2 @ [OnWALEntryWritten entry]\<rparr>
                            in case maybeSync w3 of
                                 (Some e, w4) \<Rightarrow> (Inl e, w4)
                               | (None, w4) \<Rightarrow> (Inr seqNum, w4))))))"

text \<open>The two loops of the batch appends: the total size, and the writes of the entries.\<close>

fun batch_totalSize :: "Entry list \<Rightarrow> nat" where
  "batch_totalSize [] = 0"
| "batch_totalSize (e # es) =
     HeaderSize + entrySize (Type e) (Key e) (Value e) + batch_totalSize es"

fun write_batch :: "WAL \<Rightarrow> 64 word \<Rightarrow> nat \<Rightarrow> Entry list \<Rightarrow> wal_error option \<times> WAL" where
  "write_batch w startSeqNum i [] = (None, w)"
| "write_batch w startSeqNum i (e # es) =
     (case writeRecord w RecordTypeFull (Type e) startSeqNum (Key e) (Value e) of
        (Some err, w') \<Rightarrow> (Some (WriteEntryFailed i err), w')
      | (None, w') \<Rightarrow> write_batch w' startSeqNum (i + 1) es)"

text \<open>
  Making room for the batch: flush when it does not fit in the free part of the buffer,
  and replace the writer by a larger one when it does not fit in the whole buffer.
\<close>

definition ensure_buffer :: "WAL \<Rightarrow> nat \<Rightarrow> wal_error option \<times> WAL" where
  "ensure_buffer w totalSize =
     (if totalSize > writer_size w - length (writer_buf w) then
        (case bufio_Flush w of
           (False, w1) \<Rightarrow> (Some FlushBeforeBatchFailed, w1)
         | (True, w1) \<Rightarrow>
             if totalSize > writer_size w
             then (None, w1\<lparr>writer_buf := [], writer_size := totalSize + 1024, writer_err := False\<rparr>)
             else (None, w1))
      else (None, w))"

definition AppendBatch :: "WAL \<Rightarrow> Entry list \<Rightarrow> (wal_error + 64 word) \<times> WAL" where
  "AppendBatch w entries =
     (if status w = WALStatusClosed then (Inl ErrWALClosed, w)
      else if status w = WALStatusRotating then (Inl ErrWALRotating, w)
      else if length entries = 0 then (Inr (nextSequence w), w)
      else if nextSequence w \<ge> MaxSequenceNumber then (Inl ErrSequenceOverflow, w)
      else
        (let w1 = warn_once (nextSequence w) w;
             startSeqNum = nextSequence w1
         in case ensure_buffer w1 (batch_totalSize entries) of
              (Some e, w2) \<Rightarrow> (Inl e, w2)
            | (None, w2) \<Rightarrow>
                (case write_batch w2 startSeqNum 0 entries of
                   (Some e, w3) \<Rightarrow> (Inl e, w3)
                 | (None, w3) \<Rightarrow>
                     (let w4 = w3\<lparr>nextSequence := startSeqNum + 1\<rparr>;
                          w5 = w4\<lparr>notifications :=
                                    notifications w4 @ [OnWALBatchWritten startSeqNum entries]\<rparr>
                      in case maybeSync w5 of
                           (Some e, w6) \<Rightarrow> (Inl e, w6)
                         | (None, w6) \<Rightarrow> (Inr startSeqNum, w6)))))"

definition AppendBatchWithSequence ::
  "WAL \<Rightarrow> Entry list \<Rightarrow> 64 word \<Rightarrow> (wal_error + 64 word) \<times> WAL" where
  "AppendBatchWithSequence w entries startSequence =
     (if status w = WALStatusClosed then (Inl ErrWALClosed, w)
      else if status w = WALStatusRotating then (Inl ErrWALRotating, w)
      else if length entries = 0 then (Inr startSequence, w)
      else if startSequence \<ge> MaxSequenceNumber then (Inl ErrSequenceOverflow, w)
      else
        (let w1 = warn_once startSequence w;
             startSeqNum = startSequence
         in case ensure_buffer w1 (batch_totalSize entries) of
              (Some e, w2) \<Rightarrow> (Inl e, w2)
            | (None, w2) \<Rightarrow>
                (case write_batch w2 startSeqNum 0 entries of
                   (Some e, w3) \<Rightarrow> (Inl e, w3)
                 | (None, w3) \<Rightarrow>
                     (let endSeq = startSeqNum + 1;
                          w4 = (if endSeq > nextSequence w3 then w3\<lparr>nextSequence := endSeq\<rparr> else w3);
                          w5 = w4\<lparr>notifications :=
                                    notifications w4 @ [OnWALBatchWritten startSeqNum entries]\<rparr>
                      in case maybeSync w5 of
                           (Some e, w6) \<Rightarrow> (Inl e, w6)
                         | (None, w6) \<Rightarrow> (Inr startSeqNum, w6)))))"

section \<open>Status changes\<close>

definition Close :: "WAL \<Rightarrow> wal_error option \<times> WAL" where
  "Close w =
     (if status w = WALStatusClosed then (None, w)
      else (case bufio_Flush w of
              (False, w1) \<Rightarrow> (Some FlushDuringCloseFailed, w1)
            | (True, w1) \<Rightarrow>
                (case file_Sync w1 of
                   (False, w2) \<Rightarrow> (Some SyncDuringCloseFailed, w2)
                 | (True, w2) \<Rightarrow>
                     (case file_Close (w2\<lparr>status := WALStatusRotating\<rparr>) of
                        (False, w3) \<Rightarrow> (Some CloseFileFailed, w3)
                      | (True, w3) \<Rightarrow> (None, w3\<lparr>status := WALStatusClosed\<rparr>)))))"

definition SetRotating :: "WAL \<Rightarrow> WAL" where
  "SetRotating w = w\<lparr>status := WALStatusRotating\<rparr>"

definition SetActive :: "WAL \<Rightarrow> WAL" where
  "SetActive w = w\<lparr>status := WALStatusActive\<rparr>"

definition UpdateNextSequence :: "WAL \<Rightarrow> 64 word \<Rightarrow> WAL" where
  "UpdateNextSequence w nextSeq =
     (if nextSeq > nextSequence w then (warn_once nextSeq w)\<lparr>nextSequence := nextSeq\<rparr> else w)"



text \<open>A configuration for the examples: no syncing, as in the overflow tests.\<close>

definition example_cfg :: Config where
  "example_cfg = \<lparr>WALSyncMode = SyncNone, WALSyncBytes = 0, MaxMemTables = 2,
     MemTableSize = 10\<rparr>"


section \<open>Observing the log\<close>

text \<open>
  The bytes written to the log so far, in order: those already handed to the file followed
  by those still in the writer's buffer. A flush moves bytes from the second part to the
  first and leaves the sequence unchanged.
\<close>

definition stream :: "WAL \<Rightarrow> bytes" where
  "stream w = file_data w @ writer_buf w"

text \<open>The part of the state that no write to the file or to the buffer touches.\<close>

definition ctl :: "WAL \<Rightarrow> Config \<times> 64 word \<times> wal_status \<times> bool \<times> nat" where
  "ctl w = (cfg w, nextSequence w, status w, overflowWarning w, warnings w)"

text \<open>No fault is scheduled and the writer has no error: every write and sync succeeds.\<close>

definition healthy :: "WAL \<Rightarrow> bool" where
  "healthy w \<longleftrightarrow> file_faults w = [] \<and> \<not> writer_err w"

text \<open>The bytes of one physical record: the 7-byte header, then the payload.\<close>

definition phys_record :: "8 word \<Rightarrow> bytes \<Rightarrow> bytes" where
  "phys_record recordType data = record_header recordType data @ data"

text \<open>
  The layout of a fragmented entry: a First record with the metadata prefix and the key
  bytes that fit, then the rest of the key followed by the value length and the value, cut
  into Middle records of exactly \<open>MaxRecordSize\<close> bytes and one final, non-empty Last record.
\<close>

definition fragments_written :: "8 word \<Rightarrow> 64 word \<Rightarrow> bytes \<Rightarrow> bytes \<Rightarrow> bytes \<Rightarrow> bool" where
  "fragments_written t s k v out \<longleftrightarrow>
     (\<exists>ms lst. out = phys_record RecordTypeFirst (first_fragment t s k) @
                     concat (map (phys_record RecordTypeMiddle) ms) @
                     phys_record RecordTypeLast lst \<and>
               list_all (\<lambda>m. length m = MaxRecordSize) ms \<and>
               0 < length lst \<and> length lst \<le> MaxRecordSize \<and>
               concat ms @ lst = remaining_data t k v)"

definition entry_written :: "8 word \<Rightarrow> 64 word \<Rightarrow> bytes \<Rightarrow> bytes \<Rightarrow> bytes \<Rightarrow> bool" where
  "entry_written t s k v out \<longleftrightarrow>
     (if entrySize t k v \<le> MaxRecordSize
      then out = phys_record RecordTypeFull (entry_payload t s k v)
      else fragments_written t s k v out)"

text \<open>The records of a batch: one Full record per entry, all with the sequence number \<open>s\<close>.\<close>

definition batch_written :: "64 word \<Rightarrow> Entry list \<Rightarrow> bytes" where
  "batch_written s es = concat (map (\<lambda>x.
     phys_record RecordTypeFull (entry_payload (Type x) s (Key x) (Value x))) es)"

text \<open>Successive calls of \<^verbatim>\<open>Append\<close>, with the result of each, and the sequence numbers of those that succeeded.\<close>

fun append_all :: "WAL \<Rightarrow> (8 word \<times> bytes \<times> bytes) list \<Rightarrow> (wal_error + 64 word) list \<times> WAL" where
  "append_all w [] = ([], w)"
| "append_all w ((t, k, v) # xs) =
     (case Append w t k v of (r, w1) \<Rightarrow>
        (case append_all w1 xs of (rs, w2) \<Rightarrow> (r # rs, w2)))"

fun successes :: "(wal_error + 64 word) list \<Rightarrow> 64 word list" where
  "successes [] = []"
| "successes (Inr s # rs) = s # successes rs"
| "successes (Inl e # rs) = successes rs"

text \<open>The operations of a log, and the state after a sequence of calls.\<close>

datatype wal_op =
    OpAppend "8 word" bytes bytes
  | OpAppendWithSequence "8 word" bytes bytes "64 word"
  | OpAppendBatch "Entry list"
  | OpAppendBatchWithSequence "Entry list" "64 word"
  | OpAppendExactBytes bytes "64 word"
  | OpSync
  | OpClose
  | OpSetRotating
  | OpSetActive
  | OpUpdateNextSequence "64 word"

fun step :: "WAL \<Rightarrow> wal_op \<Rightarrow> WAL" where
  "step w (OpAppend t k v) = snd (Append w t k v)"
| "step w (OpAppendWithSequence t k v s) = snd (AppendWithSequence w t k v s)"
| "step w (OpAppendBatch es) = snd (AppendBatch w es)"
| "step w (OpAppendBatchWithSequence es s) = snd (AppendBatchWithSequence w es s)"
| "step w (OpAppendExactBytes raw s) = snd (AppendExactBytes w raw s)"
| "step w OpSync = snd (Sync w)"
| "step w OpClose = snd (Close w)"
| "step w OpSetRotating = SetRotating w"
| "step w OpSetActive = SetActive w"
| "step w (OpUpdateNextSequence s) = UpdateNextSequence w s"

definition run :: "WAL \<Rightarrow> wal_op list \<Rightarrow> WAL" where
  "run w ops = foldl step w ops"

text \<open>Between two states either no warning was logged, or exactly one, setting the flag.\<close>

definition warn_mono :: "WAL \<Rightarrow> WAL \<Rightarrow> bool" where
  "warn_mono w w' \<longleftrightarrow>
     overflowWarning w' = overflowWarning w \<and> warnings w' = warnings w \<or>
     \<not> overflowWarning w \<and> overflowWarning w' \<and> warnings w' = warnings w + 1"

text \<open>
  What \<^verbatim>\<open>AppendExactBytes\<close> checks of a raw record: it holds a header, and the payload
  length declared in the header is the length of the rest.
\<close>

definition raw_ok :: "bytes \<Rightarrow> bool" where
  "raw_ok raw \<longleftrightarrow> \<not> length raw < HeaderSize \<and>
     length raw = HeaderSize + declaredPayloadSize raw"

section \<open>The memtable (package memtable)\<close>

text \<open>
  Modelled from the spec: the kind of an internal record (\<^verbatim>\<open>TypeValue\<close> for a Put,
  \<^verbatim>\<open>TypeDeletion\<close> for a tombstone), whose declaration is not in the sources.
\<close>

datatype ValueType = TypeValue | TypeDeletion

text \<open>
  Modelled from the spec: the internal record of the skip list, the tuple (key, kind,
  sequence number, value), whose declaration is not in the sources. The fields are those
  \<^verbatim>\<open>MemTable.Get\<close> and the tests read; \<^verbatim>\<open>key\<close> and \<^verbatim>\<open>value\<close> are written \<open>ekey\<close> and
  \<open>evalue\<close>.
\<close>

record entry =
  ekey :: bytes
  evalue :: bytes
  valueType :: ValueType
  seqNum :: "64 word"

text \<open>
  Modelled from the spec: \<^verbatim>\<open>newEntry\<close>, the constructor of an internal record, which is
  not in the sources.
\<close>

definition newEntry :: "bytes \<Rightarrow> bytes \<Rightarrow> ValueType \<Rightarrow> 64 word \<Rightarrow> entry" where
  "newEntry k v vt s = \<lparr>ekey = k, evalue = v, valueType = vt, seqNum = s\<rparr>"

text \<open>
  Modelled from the spec: the comparator of internal records, whose code
  (\<^verbatim>\<open>compareWithEntry\<close>) is not in the sources. Keys are compared lexicographically as
  byte strings; for equal keys the higher sequence number sorts first.
\<close>

definition entry_less :: "entry \<Rightarrow> entry \<Rightarrow> bool" where
  "entry_less a b \<longleftrightarrow> ekey a < ekey b \<or> (ekey a = ekey b \<and> seqNum a > seqNum b)"

text \<open>
  Modelled from the spec: the order that goes with the comparator: \<open>a\<close> is not after \<open>b\<close>.
\<close>

definition entry_le :: "entry \<Rightarrow> entry \<Rightarrow> bool" where
  "entry_le a b \<longleftrightarrow> \<not> entry_less b a"

text \<open>
  Modelled from the spec: the skip list (\<^verbatim>\<open>SkipList\<close>, \<^verbatim>\<open>NewSkipList\<close>, \<^verbatim>\<open>Insert\<close>,
  \<^verbatim>\<open>Find\<close>, \<^verbatim>\<open>ApproximateSize\<close>), whose code is not in the sources. It is the list of
  its records in ascending order of the comparator, and a byte counter. The levels of the
  nodes only speed the search up and are left out.
\<close>

record SkipList =
  sl_entries :: "entry list"
  sl_size :: int

text \<open>Modelled from the spec: \<^verbatim>\<open>NewSkipList\<close>, the empty skip list; its size is 0.\<close>

definition NewSkipList :: SkipList where
  "NewSkipList = \<lparr>sl_entries = [], sl_size = 0\<rparr>"

text \<open>
  Modelled from the spec: \<^verbatim>\<open>Insert\<close> splices the record into the list in the order
  (key ascending, sequence number descending), before the first record that is not smaller,
  and adds the size of the record to the byte counter. The size of a record
  (\<^verbatim>\<open>entry.size\<close>) is not in the sources and the spec gives no formula: it is the
  parameter \<open>sz\<close>.
\<close>

fun sl_splice :: "entry \<Rightarrow> entry list \<Rightarrow> entry list" where
  "sl_splice e [] = [e]"
| "sl_splice e (x # xs) = (if entry_less x e then x # sl_splice e xs else e # x # xs)"

text \<open>
  Modelled from the spec: \<^verbatim>\<open>Insert\<close>, the splice and the update of the byte counter.
\<close>

definition Insert :: "(entry \<Rightarrow> int) \<Rightarrow> entry \<Rightarrow> SkipList \<Rightarrow> SkipList" where
  "Insert sz e sl = \<lparr>sl_entries = sl_splice e (sl_entries sl), sl_size = sl_size sl + sz e\<rparr>"

text \<open>
  Modelled from the spec: \<^verbatim>\<open>Find\<close> returns the first record in ascending order whose key
  equals the user key, or nothing.
\<close>

definition Find :: "SkipList \<Rightarrow> bytes \<Rightarrow> entry option" where
  "Find sl k = find (\<lambda>e. ekey e = k) (sl_entries sl)"

text \<open>
  The memtable. The creation time, the lock and the field \<^verbatim>\<open>size\<close> (which no function
  shown reads or writes) are left out.
\<close>

record MemTable =
  skipList :: SkipList
  nextSeqNum :: "64 word"
  immutable :: bool

definition NewMemTable :: MemTable where
  "NewMemTable = \<lparr>skipList = NewSkipList, nextSeqNum = 0, immutable = False\<rparr>"

definition IsImmutable :: "MemTable \<Rightarrow> bool" where
  "IsImmutable m = immutable m"

definition SetImmutable :: "MemTable \<Rightarrow> MemTable" where
  "SetImmutable m = m\<lparr>immutable := True\<rparr>"

definition Put :: "(entry \<Rightarrow> int) \<Rightarrow> MemTable \<Rightarrow> bytes \<Rightarrow> bytes \<Rightarrow> 64 word \<Rightarrow> MemTable" where
  "Put sz m k v s =
     (if IsImmutable m then m
      else (let m1 = m\<lparr>skipList := Insert sz (newEntry k v TypeValue s) (skipList m)\<rparr>
            in if s > nextSeqNum m1 then m1\<lparr>nextSeqNum := s + 1\<rparr> else m1))"

definition Delete :: "(entry \<Rightarrow> int) \<Rightarrow> MemTable \<Rightarrow> bytes \<Rightarrow> 64 word \<Rightarrow> MemTable" where
  "Delete sz m k s =
     (if IsImmutable m then m
      else (let m1 = m\<lparr>skipList := Insert sz (newEntry k [] TypeDeletion s) (skipList m)\<rparr>
            in if s > nextSeqNum m1 then m1\<lparr>nextSeqNum := s + 1\<rparr> else m1))"

text \<open>
  \<^verbatim>\<open>Get\<close> returns the value and whether a record was found; the nil slice is the empty
  list. The two branches differ in the source by the lock they take.
\<close>

definition Get :: "MemTable \<Rightarrow> bytes \<Rightarrow> bytes \<times> bool" where
  "Get m k =
     (if IsImmutable m then
        (case Find (skipList m) k of
           None \<Rightarrow> ([], False)
         | Some e \<Rightarrow> if valueType e = TypeDeletion then ([], True) else (evalue e, True))
      else
        (case Find (skipList m) k of
           None \<Rightarrow> ([], False)
         | Some e \<Rightarrow> if valueType e = TypeDeletion then ([], True) else (evalue e, True)))"

definition Contains :: "MemTable \<Rightarrow> bytes \<Rightarrow> bool" where
  "Contains m k =
     (if IsImmutable m then Find (skipList m) k \<noteq> None else Find (skipList m) k \<noteq> None)"

definition ApproximateSize :: "MemTable \<Rightarrow> int" where
  "ApproximateSize m = sl_size (skipList m)"

definition GetNextSequenceNumber :: "MemTable \<Rightarrow> 64 word" where
  "GetNextSequenceNumber m = (if IsImmutable m then nextSeqNum m else nextSeqNum m)"

text \<open>\<^verbatim>\<open>ProcessWALEntry\<close> always returns nil; the model returns the memtable.\<close>

definition ProcessWALEntry :: "(entry \<Rightarrow> int) \<Rightarrow> MemTable \<Rightarrow> Entry \<Rightarrow> MemTable" where
  "ProcessWALEntry sz m e =
     (if Type e = OpTypePut then Put sz m (Key e) (Value e) (SequenceNumber e)
      else if Type e = OpTypeDelete then Delete sz m (Key e) (SequenceNumber e)
      else m)"

text \<open>The calls that change or may change a memtable, and the state after a sequence of them.\<close>

datatype mem_op =
    MPut bytes bytes "64 word"
  | MDelete bytes "64 word"
  | MSetImmutable
  | MProcessWALEntry Entry

fun mem_step :: "(entry \<Rightarrow> int) \<Rightarrow> MemTable \<Rightarrow> mem_op \<Rightarrow> MemTable" where
  "mem_step sz m (MPut k v s) = Put sz m k v s"
| "mem_step sz m (MDelete k s) = Delete sz m k s"
| "mem_step sz m MSetImmutable = SetImmutable m"
| "mem_step sz m (MProcessWALEntry e) = ProcessWALEntry sz m e"

definition mem_run :: "(entry \<Rightarrow> int) \<Rightarrow> MemTable \<Rightarrow> mem_op list \<Rightarrow> MemTable" where
  "mem_run sz m ops = foldl (mem_step sz) m ops"

text \<open>The records of a memtable, in the order of the skip list.\<close>

definition records :: "MemTable \<Rightarrow> entry list" where
  "records m = sl_entries (skipList m)"

section \<open>Recovery (package memtable, recovery.go)\<close>

record RecoveryOptions =
  optMaxSequenceNumber :: "64 word"
  optMaxMemTables :: int
  optMemTableSize :: int

definition DefaultRecoveryOptions :: "Config \<Rightarrow> RecoveryOptions" where
  "DefaultRecoveryOptions c =
     \<lparr>optMaxSequenceNumber = - 1, optMaxMemTables = MaxMemTables c,
      optMemTableSize = MemTableSize c\<rparr>"

datatype recovery_error =
    MaxMemTablesExceeded int
  | ReplayFailed recovery_error
  | IndexOutOfRange

text \<open>
  The closure \<^verbatim>\<open>entryHandler\<close> of \<^verbatim>\<open>RecoverFromWAL\<close>. Its captured variables,
  the slice of memtables and \<^verbatim>\<open>maxSeqNum\<close>, are the state; the memtables are
  pointers in the source, so marking the current one immutable changes the last element of
  the slice.
\<close>

definition entryHandler ::
  "RecoveryOptions \<Rightarrow> (entry \<Rightarrow> int) \<Rightarrow> MemTable list \<times> 64 word \<Rightarrow> Entry
     \<Rightarrow> recovery_error + MemTable list \<times> 64 word" where
  "entryHandler opts sz st e =
     (case st of (memTables, maxSeqNum) \<Rightarrow>
        if SequenceNumber e > optMaxSequenceNumber opts then Inr (memTables, maxSeqNum)
        else
          (let maxSeqNum' = (if SequenceNumber e > maxSeqNum then SequenceNumber e else maxSeqNum)
           in if memTables = [] then Inl IndexOutOfRange
              else
                (let current = last memTables
                 in if ApproximateSize current \<ge> optMemTableSize opts then
                      (if int (length memTables) \<ge> optMaxMemTables opts
                       then Inl (MaxMemTablesExceeded (optMaxMemTables opts))
                       else Inr (butlast memTables @
                                   [SetImmutable current, ProcessWALEntry sz NewMemTable e],
                                 maxSeqNum'))
                    else Inr (butlast memTables @ [ProcessWALEntry sz current e], maxSeqNum'))))"

text \<open>
  Modelled from the spec: \<^verbatim>\<open>wal.ReplayWALDir\<close>, whose code is not in the sources. It
  calls the handler on each entry of the log, oldest first, and returns on the first handler
  error. Its input here is the list of entries it reads from the directory.
\<close>

fun replay_entries ::
  "('st \<Rightarrow> Entry \<Rightarrow> recovery_error + 'st) \<Rightarrow> 'st \<Rightarrow> Entry list \<Rightarrow> recovery_error + 'st" where
  "replay_entries handler st [] = Inr st"
| "replay_entries handler st (e # es) =
     (case handler st e of Inl err \<Rightarrow> Inl err | Inr st' \<Rightarrow> replay_entries handler st' es)"

text \<open>The options in force: the defaults of the configuration when none are given (a nil pointer).\<close>

definition options_in_force :: "Config \<Rightarrow> RecoveryOptions option \<Rightarrow> RecoveryOptions" where
  "options_in_force c opts = (case opts of None \<Rightarrow> DefaultRecoveryOptions c | Some given \<Rightarrow> given)"

definition RecoverFromWAL ::
  "Config \<Rightarrow> RecoveryOptions option \<Rightarrow> (entry \<Rightarrow> int) \<Rightarrow> Entry list
     \<Rightarrow> recovery_error + MemTable list \<times> 64 word" where
  "RecoverFromWAL c opts sz es =
     (let opts' = options_in_force c opts
      in case replay_entries (entryHandler opts' sz) ([NewMemTable], 0) es of
           Inl err \<Rightarrow> Inl (ReplayFailed err)
         | Inr (memTables, maxSeqNum) \<Rightarrow> Inr (memTables, maxSeqNum))"

text \<open>The entries recovery does not skip, and the largest of their sequence numbers (0 when there is none).\<close>

definition replayed :: "RecoveryOptions \<Rightarrow> Entry list \<Rightarrow> Entry list" where
  "replayed opts es = filter (\<lambda>e. \<not> SequenceNumber e > optMaxSequenceNumber opts) es"

definition max_seq :: "Entry list \<Rightarrow> 64 word" where
  "max_seq es = foldl max 0 (map SequenceNumber es)"

text \<open>A size for the examples: the bytes of the key and of the value.\<close>

definition example_size :: "entry \<Rightarrow> int" where
  "example_size e = int (length (ekey e)) + int (length (evalue e))"

text \<open>Options and log entries for the examples: two Puts of 10 and 2 bytes, and an entry beyond the maximum sequence number.\<close>

definition example_opts :: "int \<Rightarrow> RecoveryOptions" where
  "example_opts n = \<lparr>optMaxSequenceNumber = 100, optMaxMemTables = n, optMemTableSize = 10\<rparr>"

definition entry_a :: Entry where
  "entry_a = \<lparr>SequenceNumber = 3, Type = OpTypePut, Key = [1, 2, 3, 4, 5],
     Value = [6, 7, 8, 9, 10], rawBytes = []\<rparr>"

definition entry_b :: Entry where
  "entry_b = \<lparr>SequenceNumber = 4, Type = OpTypePut, Key = [1], Value = [2], rawBytes = []\<rparr>"

definition entry_late :: Entry where
  "entry_late = \<lparr>SequenceNumber = 200, Type = OpTypePut, Key = [3], Value = [4], rawBytes = []\<rparr>"

text \<open>The memtable that holds the first of them.\<close>

definition memtable_a :: MemTable where
  "memtable_a = ProcessWALEntry example_size NewMemTable entry_a"

text \<open>The scenarios of the spec: a Put, a Put followed by a Delete, and an empty memtable.\<close>

definition example_ops :: "mem_op list" where
  "example_ops = [MPut [107] [118] 1, MPut [120] [121] 2, MDelete [120] 3]"

text \<open>
  The pool of memtables during recovery: it is not empty, it holds one memtable or at most
  \<open>MaxMemTables\<close>, all but the last are immutable and the last is mutable.
\<close>

definition pool_ok :: "RecoveryOptions \<Rightarrow> MemTable list \<Rightarrow> bool" where
  "pool_ok opts mts \<longleftrightarrow>
     mts \<noteq> [] \<and> (length mts = 1 \<or> int (length mts) \<le> optMaxMemTables opts) \<and>
     list_all IsImmutable (butlast mts) \<and> \<not> IsImmutable (last mts)"


section \<open>Replay of the log\<close>

text \<open>
  Modelled from the spec: reading one physical record (the reader, \<^verbatim>\<open>OpenReader\<close> and
  \<^verbatim>\<open>ReadEntry\<close>, is not in the sources). A record is a 7-byte header (CRC-32 of the
  payload, 4 bytes little-endian; payload length, 2 bytes little-endian; type, 1 byte)
  followed by the payload; the payload is at most \<open>MaxRecordSize\<close> bytes and the type is
  Full, First, Middle or Last. The result is the type, the payload and the rest of the
  file, or nothing at the end of the file or at a corrupt record.
\<close>

definition read_record :: "bytes \<Rightarrow> (8 word \<times> bytes \<times> bytes) option" where
  "read_record bs =
     (if length bs < HeaderSize then None
      else
        (let crc = Uint32 (take 4 bs);
             len = unat (Uint16 (take 2 (drop 4 bs)));
             recordType = bs ! 6;
             rest = drop HeaderSize bs
         in if len > MaxRecordSize \<or> length rest < len then None
            else if ChecksumIEEE (take len rest) \<noteq> crc then None
            else if recordType \<noteq> RecordTypeFull \<and> recordType \<noteq> RecordTypeFirst \<and>
                    recordType \<noteq> RecordTypeMiddle \<and> recordType \<noteq> RecordTypeLast then None
            else Some (recordType, take len rest, drop len rest)))"

text \<open>
  Modelled from the spec: decoding a logical entry payload: op type (1 byte), sequence
  number (8 bytes little-endian), key length (4 bytes little-endian), the key, and, unless
  the entry is a Delete, the value length (4 bytes little-endian) and the value. A payload
  of any other shape or with an unknown op type is corrupt.
\<close>

definition decode_entry :: "bytes \<Rightarrow> Entry option" where
  "decode_entry p =
     (if length p < 1 + 8 + 4 then None
      else
        (let op = p ! 0;
             seqNum = Uint64 (take 8 (drop 1 p));
             keyLen = unat (Uint32 (take 4 (drop 9 p)));
             r = drop 13 p
         in if \<not> valid_op op \<or> length r < keyLen then None
            else
              (let k = take keyLen r; r2 = drop keyLen r
               in if op = OpTypeDelete then
                    (if r2 = []
                     then Some \<lparr>SequenceNumber = seqNum, Type = op, Key = k, Value = [],
                                rawBytes = []\<rparr>
                     else None)
                  else if length r2 < 4 then None
                  else
                    (let valLen = unat (Uint32 (take 4 r2)); val = drop 4 r2
                     in if length val \<noteq> valLen then None
                        else Some \<lparr>SequenceNumber = seqNum, Type = op, Key = k, Value = val,
                                   rawBytes = []\<rparr>))))"

text \<open>
  Modelled from the spec: the logical entries of one segment file. Physical records are
  read in order; a Full record is one entry; a First record starts a run that Middle
  records extend and a Last record completes, and the payloads of the run, concatenated,
  are the entry. A run cut short by a Full or First record is discarded, as is a Middle or
  Last record outside a run. A corrupt record ends the segment. The second argument is the
  run collected so far, if any.
\<close>

function segment_entries_from :: "bytes \<Rightarrow> bytes option \<Rightarrow> Entry list" where
  "segment_entries_from bs pending =
     (case read_record bs of
        None \<Rightarrow> []
      | Some (recordType, payload, rest) \<Rightarrow>
          if length rest < length bs then
            (if recordType = RecordTypeFull then
               (case decode_entry payload of
                  None \<Rightarrow> []
                | Some e \<Rightarrow> e # segment_entries_from rest None)
             else if recordType = RecordTypeFirst then segment_entries_from rest (Some payload)
             else if recordType = RecordTypeMiddle then
               (case pending of
                  None \<Rightarrow> segment_entries_from rest None
                | Some buf \<Rightarrow> segment_entries_from rest (Some (buf @ payload)))
             else
               (case pending of
                  None \<Rightarrow> segment_entries_from rest None
                | Some buf \<Rightarrow>
                    (case decode_entry (buf @ payload) of
                       None \<Rightarrow> []
                     | Some e \<Rightarrow> e # segment_entries_from rest None)))
          else [])"
  by pat_completeness auto
termination
  by (relation "measure (\<lambda>(bs, pending). length bs)") auto

declare segment_entries_from.simps [simp del]

text \<open>Modelled from the spec: the entries of a segment, read from its start, outside any run.\<close>

definition segment_entries :: "bytes \<Rightarrow> Entry list" where
  "segment_entries bs = segment_entries_from bs None"

text \<open>
  Modelled from the spec: \<^verbatim>\<open>ReplayWALDir\<close> replays the segments oldest first and calls the
  handler on every entry, returning on the first handler error. The directory is the list
  of its segment files in that order.
\<close>

definition dir_entries :: "bytes list \<Rightarrow> Entry list" where
  "dir_entries segments = concat (map segment_entries segments)"

text \<open>
  Modelled from the spec: \<^verbatim>\<open>ReplayWALDir\<close> itself, the handler called on the entries of
  the directory until it returns an error.
\<close>

definition ReplayWALDir ::
  "bytes list \<Rightarrow> ('st \<Rightarrow> Entry \<Rightarrow> recovery_error + 'st) \<Rightarrow> 'st \<Rightarrow> recovery_error + 'st" where
  "ReplayWALDir segments handler st = replay_entries handler st (dir_entries segments)"

text \<open>A handler that keeps the entries it receives, in order.\<close>

definition collect :: "Entry list \<Rightarrow> Entry \<Rightarrow> recovery_error + Entry list" where
  "collect acc e = Inr (acc @ [e])"

text \<open>
  The logical entries appended: each call of \<^verbatim>\<open>Append\<close> with the sequence number it
  returned.
\<close>

fun appended :: "(8 word \<times> bytes \<times> bytes) list \<Rightarrow> (wal_error + 64 word) list \<Rightarrow> Entry list" where
  "appended ((t, k, v) # xs) (Inr s # rs) =
     \<lparr>SequenceNumber = s, Type = t, Key = k, Value = v, rawBytes = []\<rparr> # appended xs rs"
| "appended ((t, k, v) # xs) (Inl e # rs) = appended xs rs"
| "appended _ _ = []"

text \<open>
  The lengths of the key and of the value fit the 4-byte length fields of the payload. The
  value of a Delete is not written, so its length does not matter.
\<close>

definition fits_format :: "8 word \<times> bytes \<times> bytes \<Rightarrow> bool" where
  "fits_format x =
     (case x of (t, k, v) \<Rightarrow>
        length k < 2 ^ 32 \<and> (if t = OpTypeDelete then True else length v < 2 ^ 32))"

text \<open>An entry as replay delivers it: a Delete carries no value.\<close>

definition as_replayed :: "Entry \<Rightarrow> Entry" where
  "as_replayed e = e\<lparr>Value := (if Type e = OpTypeDelete then [] else Value e)\<rparr>"

definition succeeded :: "wal_error + 64 word \<Rightarrow> bool" where
  "succeeded r = (case r of Inl e \<Rightarrow> False | Inr s \<Rightarrow> True)"

text \<open>
  The boundary cases of the spec: an entry with empty key and value, a Delete, and an entry
  with a key of 8 KiB and a value of 128 KiB, which needs fragments.
\<close>

definition example_writes :: "(8 word \<times> bytes \<times> bytes) list" where
  "example_writes =
     [(OpTypePut, [], []), (OpTypeDelete, [1, 2], []),
      (OpTypePut, replicate 8192 1, replicate 131072 2)]"

text \<open>A key of \<open>2\<^sup>3\<^sup>2\<close> bytes: its length does not fit the 4-byte length field.\<close>

definition huge_key :: bytes where
  "huge_key = replicate (2 ^ 32) 0"


text \<open>A batch of two entries, a Put and a Delete.\<close>

definition example_batch :: "Entry list" where
  "example_batch =
     [\<lparr>SequenceNumber = 0, Type = OpTypePut, Key = [97], Value = [49], rawBytes = []\<rparr>,
      \<lparr>SequenceNumber = 0, Type = OpTypeDelete, Key = [99], Value = [], rawBytes = []\<rparr>]"


text \<open>A log whose next sequence number is \<open>n\<close>.\<close>

definition wal_at :: "64 word \<Rightarrow> WAL" where
  "wal_at n = (NewWAL example_cfg [])\<lparr>nextSequence := n\<rparr>"

text \<open>An 8-byte framed record: a header that declares one payload byte, and that byte.\<close>

definition example_raw :: bytes where
  "example_raw = [0, 0, 0, 0, 1, 0, 1, 1]"

section \<open>Effects of the writes\<close>


lemma bufio_Flush_effect:
  "bufio_Flush w = (b, w') \<Longrightarrow>
     ctl w' = ctl w \<and> (b \<longrightarrow> stream w' = stream w \<and> writer_buf w' = []) \<and>
     (healthy w \<longrightarrow> b \<and> healthy w') \<and> writer_size w' = writer_size w"
  by (auto simp: bufio_Flush_def file_Write_def next_fault_def ctl_def stream_def healthy_def
      split: if_splits list.splits bool.splits)

lemma bufio_Write_effect:
  "bufio_Write w p = (b, w') \<Longrightarrow>
     ctl w' = ctl w \<and> (b \<longrightarrow> stream w' = stream w @ p) \<and>
     (healthy w \<longrightarrow> b \<and> healthy w') \<and> writer_size w' = writer_size w"
  by (auto simp: bufio_Write_def bufio_Flush_def bufio_Available_def file_Write_def
      next_fault_def ctl_def stream_def healthy_def Let_def
      split: if_splits list.splits bool.splits)

lemma file_Sync_effect:
  "file_Sync w = (b, w') \<Longrightarrow>
     ctl w' = ctl w \<and> stream w' = stream w \<and> (healthy w \<longrightarrow> b \<and> healthy w')"
  by (auto simp: file_Sync_def next_fault_def ctl_def stream_def healthy_def
      split: list.splits)

lemma writeRecordData_effect:
  "writeRecordData w h p = (e, w') \<Longrightarrow>
     ctl w' = ctl w \<and> (e = None \<longrightarrow> stream w' = stream w @ h @ p) \<and>
     (healthy w \<longrightarrow> e = None \<and> healthy w')"
  by (auto simp: writeRecordData_def ctl_def stream_def healthy_def
      split: prod.splits bool.splits dest!: bufio_Write_effect)

lemma writeRawRecord_effect:
  "writeRawRecord w rt d = (e, w') \<Longrightarrow>
     ctl w' = ctl w \<and> (e = None \<longrightarrow> stream w' = stream w @ phys_record rt d) \<and>
     (healthy w \<and> length d \<le> MaxRecordSize \<longrightarrow> e = None \<and> healthy w') \<and>
     (e = None \<longrightarrow> length d \<le> MaxRecordSize)"
  by (auto simp: writeRawRecord_def phys_record_def split: if_splits
      dest!: writeRecordData_effect)

lemma length_entry_payload [simp]:
  "length (entry_payload t s k v) = entrySize t k v"
  by (simp add: entry_payload_def entrySize_def PutUint64_def PutUint32_def)

lemma writeRecord_effect:
  "writeRecord w rt t s k v = (e, w') \<Longrightarrow>
     ctl w' = ctl w \<and>
     (e = None \<longrightarrow> stream w' = stream w @ phys_record rt (entry_payload t s k v)) \<and>
     (healthy w \<and> entrySize t k v \<le> MaxRecordSize \<longrightarrow> e = None \<and> healthy w') \<and>
     (e = None \<longrightarrow> entrySize t k v \<le> MaxRecordSize)"
  by (auto simp: writeRecord_def split: if_splits dest!: writeRawRecord_effect)

lemma write_middles_effect:
  "write_middles w r = (e, w', r') \<Longrightarrow>
     ctl w' = ctl w \<and> (healthy w \<longrightarrow> e = None \<and> healthy w') \<and>
     (e = None \<longrightarrow>
        (\<exists>ms. stream w' = stream w @ concat (map (phys_record RecordTypeMiddle) ms) \<and>
              (\<forall>m \<in> set ms. length m = MaxRecordSize) \<and> concat ms @ r' = r) \<and>
        length r' \<le> MaxRecordSize \<and> (r \<noteq> [] \<longrightarrow> r' \<noteq> []))"
proof (induction w r arbitrary: e w' r' rule: write_middles.induct)
  case (1 w remaining)
  show ?case
  proof (cases "length remaining > MaxRecordSize")
    case False
    with "1.prems" show ?thesis
      by (auto simp: write_middles.simps [of w remaining] intro: exI [of _ "[]"])
  next
    case True
    obtain e1 w1 where a:
      "writeRawRecord w RecordTypeMiddle (take MaxRecordSize remaining) = (e1, w1)"
      by (cases "writeRawRecord w RecordTypeMiddle (take MaxRecordSize remaining)")
    note eff = writeRawRecord_effect [OF a]
    show ?thesis
    proof (cases e1)
      case (Some x)
      with True a "1.prems" eff show ?thesis
        by (auto simp: write_middles.simps [of w remaining])
    next
      case None
      with True a "1.prems" have rec: "write_middles w1 (drop MaxRecordSize remaining) = (e, w', r')"
        by (simp add: write_middles.simps [of w remaining])
      note ih = "1.IH" [OF True a [symmetric] None rec]
      have dne: "drop MaxRecordSize remaining \<noteq> []" using True by simp
      show ?thesis
      proof (intro conjI impI)
        show "ctl w' = ctl w" using ih eff by simp
        show "e = None" if "healthy w" using that ih eff True by simp
        show "healthy w'" if "healthy w" using that ih eff True by simp
        show "length r' \<le> MaxRecordSize" if "e = None" using that ih by simp
        show "r' \<noteq> []" if "e = None" using that ih dne by simp
        show "\<exists>ms. stream w' = stream w @ concat (map (phys_record RecordTypeMiddle) ms) \<and>
              (\<forall>m \<in> set ms. length m = MaxRecordSize) \<and> concat ms @ r' = remaining"
          if en: "e = None"
        proof -
          from ih en obtain ms where ms:
            "stream w' = stream w1 @ concat (map (phys_record RecordTypeMiddle) ms)"
            "\<forall>m \<in> set ms. length m = MaxRecordSize"
            "concat ms @ r' = drop MaxRecordSize remaining"
            by blast
          have s1: "stream w1 = stream w @ phys_record RecordTypeMiddle (take MaxRecordSize remaining)"
            using eff None by simp
          have "stream w' = stream w @ concat (map (phys_record RecordTypeMiddle)
                  (take MaxRecordSize remaining # ms))"
            using ms(1) s1 by simp
          moreover have "\<forall>m \<in> set (take MaxRecordSize remaining # ms). length m = MaxRecordSize"
            using ms(2) True by simp
          moreover have "concat (take MaxRecordSize remaining # ms) @ r' = remaining"
            using ms(3) by simp
          ultimately show ?thesis by blast
        qed
      qed
    qed
  qed
qed

lemma ctl_upd [simp]:
  "ctl (w\<lparr>writer_buf := a\<rparr>) = ctl w"
  "ctl (w\<lparr>writer_err := b\<rparr>) = ctl w"
  "ctl (w\<lparr>writer_size := c\<rparr>) = ctl w"
  "ctl (w\<lparr>file_data := d\<rparr>) = ctl w"
  "ctl (w\<lparr>file_faults := e\<rparr>) = ctl w"
  "ctl (w\<lparr>bytesWritten := f\<rparr>) = ctl w"
  "ctl (w\<lparr>batchByteSize := g\<rparr>) = ctl w"
  "ctl (w\<lparr>notifications := h\<rparr>) = ctl w"
  by (simp_all add: ctl_def)

lemma stream_upd [simp]:
  "stream (w\<lparr>nextSequence := a\<rparr>) = stream w"
  "stream (w\<lparr>overflowWarning := b\<rparr>) = stream w"
  "stream (w\<lparr>warnings := c\<rparr>) = stream w"
  "stream (w\<lparr>status := d\<rparr>) = stream w"
  "stream (w\<lparr>bytesWritten := f\<rparr>) = stream w"
  "stream (w\<lparr>batchByteSize := g\<rparr>) = stream w"
  "stream (w\<lparr>notifications := h\<rparr>) = stream w"
  by (simp_all add: stream_def)

lemma healthy_upd [simp]:
  "healthy (w\<lparr>nextSequence := a\<rparr>) = healthy w"
  "healthy (w\<lparr>overflowWarning := b\<rparr>) = healthy w"
  "healthy (w\<lparr>warnings := c\<rparr>) = healthy w"
  "healthy (w\<lparr>status := d\<rparr>) = healthy w"
  "healthy (w\<lparr>bytesWritten := f\<rparr>) = healthy w"
  "healthy (w\<lparr>batchByteSize := g\<rparr>) = healthy w"
  "healthy (w\<lparr>notifications := h\<rparr>) = healthy w"
  by (simp_all add: healthy_def)

lemma ctl_fields:
  "ctl w' = ctl w \<Longrightarrow>
     cfg w' = cfg w \<and> nextSequence w' = nextSequence w \<and> status w' = status w \<and>
     overflowWarning w' = overflowWarning w \<and> warnings w' = warnings w"
  by (simp add: ctl_def)

lemma length_first_fragment:
  "length (first_fragment t s k) = 13 + min (length k) (MaxRecordSize - 13)"
  by (simp add: first_fragment_def PutUint64_def PutUint32_def)

lemma remaining_data_nonempty:
  "entrySize t k v > MaxRecordSize \<Longrightarrow> remaining_data t k v \<noteq> []"
  by (auto simp: remaining_data_def entrySize_def PutUint32_def Let_def MaxRecordSize_def
      split: if_splits)

lemma writeFragmentedRecord_effect:
  assumes "writeFragmentedRecord w t s k v = (e, w')"
  shows "ctl w' = ctl w"
    and "healthy w \<Longrightarrow> e = None \<and> healthy w'"
    and "e = None \<Longrightarrow> entrySize t k v > MaxRecordSize \<Longrightarrow>
           \<exists>out. stream w' = stream w @ out \<and> fragments_written t s k v out"
proof -
  obtain e1 w1 where a: "writeRawRecord w RecordTypeFirst (first_fragment t s k) = (e1, w1)"
    by (cases "writeRawRecord w RecordTypeFirst (first_fragment t s k)")
  obtain e2 w2 r2 where b: "write_middles w1 (remaining_data t k v) = (e2, w2, r2)"
    by (cases "write_middles w1 (remaining_data t k v)")
  obtain e3 w3 where c: "writeRawRecord w2 RecordTypeLast r2 = (e3, w3)"
    by (cases "writeRawRecord w2 RecordTypeLast r2")
  note ea = writeRawRecord_effect [OF a]
  note eb = write_middles_effect [OF b]
  note ec = writeRawRecord_effect [OF c]
  have lf: "length (first_fragment t s k) \<le> MaxRecordSize"
    by (simp add: length_first_fragment MaxRecordSize_def)
  show "ctl w' = ctl w"
    using assms a b c ea eb ec
    by (auto simp: writeFragmentedRecord_def split: option.splits if_splits)
  show "e = None \<and> healthy w'" if "healthy w"
    using that assms a b c ea eb ec lf
    by (auto simp: writeFragmentedRecord_def split: option.splits if_splits)
  show "\<exists>out. stream w' = stream w @ out \<and> fragments_written t s k v out"
    if en: "e = None" and big: "entrySize t k v > MaxRecordSize"
  proof -
    have e1: "e1 = None" using assms a en
      by (auto simp: writeFragmentedRecord_def split: option.splits)
    have e2: "e2 = None" using assms a b en e1
      by (auto simp: writeFragmentedRecord_def split: option.splits)
    have r2: "r2 \<noteq> []" using eb e2 remaining_data_nonempty [OF big] by simp
    have e3: "e3 = None" "w' = w3" using assms a b c en e1 e2 r2
      by (auto simp: writeFragmentedRecord_def split: option.splits)
    from eb e2 obtain ms where ms:
      "stream w2 = stream w1 @ concat (map (phys_record RecordTypeMiddle) ms)"
      "\<forall>m \<in> set ms. length m = MaxRecordSize"
      "concat ms @ r2 = remaining_data t k v" "length r2 \<le> MaxRecordSize"
      by blast
    have "stream w' = stream w @ (phys_record RecordTypeFirst (first_fragment t s k) @
            concat (map (phys_record RecordTypeMiddle) ms) @ phys_record RecordTypeLast r2)"
      using ea ec e1 e3 ms(1) by simp
    moreover have "fragments_written t s k v (phys_record RecordTypeFirst (first_fragment t s k) @
            concat (map (phys_record RecordTypeMiddle) ms) @ phys_record RecordTypeLast r2)"
      unfolding fragments_written_def using ms r2 by (auto simp: list_all_iff)
    ultimately show ?thesis by blast
  qed
qed

lemma syncLocked_effect:
  "syncLocked w = (e, w') \<Longrightarrow>
     ctl w' = ctl w \<and> (e = None \<longrightarrow> stream w' = stream w) \<and>
     (healthy w \<and> status w = WALStatusActive \<longrightarrow> e = None \<and> healthy w')"
  by (auto simp: syncLocked_def split: if_splits prod.splits bool.splits
      dest!: bufio_Flush_effect file_Sync_effect)

lemma maybeSync_effect:
  "maybeSync w = (e, w') \<Longrightarrow>
     ctl w' = ctl w \<and> (e = None \<longrightarrow> stream w' = stream w) \<and>
     (healthy w \<and> status w = WALStatusActive \<longrightarrow> e = None \<and> healthy w')"
  by (auto simp: maybeSync_def Let_def split: if_splits dest!: syncLocked_effect)

lemma write_entry_effect:
  assumes "write_entry w t s k v = (r, w')"
  shows "ctl w' = ctl w"
    and "r = Inr x \<Longrightarrow> x = s"
    and "healthy w \<Longrightarrow> status w = WALStatusActive \<Longrightarrow> r = Inr s \<and> healthy w'"
    and "r = Inr x \<Longrightarrow> \<exists>out. stream w' = stream w @ out \<and> entry_written t s k v out"
proof -
  let ?big = "entrySize t k v > MaxRecordSize"
  let ?wr = "if entrySize t k v \<le> MaxRecordSize
            then writeRecord w RecordTypeFull t s k v else writeFragmentedRecord w t s k v"
  obtain e1 w1 where a: "?wr = (e1, w1)" by (cases ?wr)
  let ?w2 = "w1\<lparr>notifications := notifications w1 @ [OnWALEntryWritten
       \<lparr>SequenceNumber = s, Type = t, Key = k, Value = v, rawBytes = []\<rparr>]\<rparr>"
  obtain e3 w3 where b: "maybeSync ?w2 = (e3, w3)" by (cases "maybeSync ?w2")
  note eb = maybeSync_effect [OF b]
  have c1: "ctl w1 = ctl w"
    using a writeRecord_effect [of w RecordTypeFull t s k v e1 w1]
      writeFragmentedRecord_effect(1) [of w t s k v e1 w1]
    by (auto split: if_splits)
  have h1: "e1 = None \<and> healthy w1" if "healthy w"
    using that a writeRecord_effect [of w RecordTypeFull t s k v e1 w1]
      writeFragmentedRecord_effect(2) [of w t s k v e1 w1]
    by (auto split: if_splits)
  have s1: "\<exists>out. stream w1 = stream w @ out \<and> entry_written t s k v out" if "e1 = None"
    using that a writeRecord_effect [of w RecordTypeFull t s k v e1 w1]
      writeFragmentedRecord_effect(3) [of w t s k v e1 w1]
    by (auto simp: entry_written_def split: if_splits)
  have st: "status w1 = status w" using c1 by (simp add: ctl_def)
  show "ctl w' = ctl w"
    using assms a b eb c1 by (auto simp: write_entry_def Let_def split: option.splits)
  show "x = s" if "r = Inr x"
    using that assms a b by (auto simp: write_entry_def Let_def split: option.splits)
  show "r = Inr s \<and> healthy w'" if "healthy w" "status w = WALStatusActive"
    using that assms a b eb h1 st by (auto simp: write_entry_def Let_def split: option.splits)
  show "\<exists>out. stream w' = stream w @ out \<and> entry_written t s k v out" if "r = Inr x"
  proof -
    have "e1 = None" "e3 = None" "w' = w3"
      using that assms a b by (auto simp: write_entry_def Let_def split: option.splits)
    with s1 eb show ?thesis by auto
  qed
qed





lemma word_less_succ: "(x :: 64 word) \<noteq> - 1 \<Longrightarrow> x < x + 1"
  using inc_less_eq_self_iff_eq [of x] by (simp add: not_le [symmetric])

lemma below_max_not_last: "\<not> MaxSequenceNumber \<le> (x :: 64 word) \<Longrightarrow> x \<noteq> - 1"
  by auto

lemma warn_once_fields [simp]:
  "nextSequence (warn_once s w) = nextSequence w"
  "status (warn_once s w) = status w"
  "cfg (warn_once s w) = cfg w"
  "stream (warn_once s w) = stream w"
  "healthy (warn_once s w) = healthy w"
  by (simp_all add: warn_once_def)

lemma Append_effect:
  assumes "Append w t k v = (r, w')"
  shows "r = Inr s \<Longrightarrow> s = nextSequence w \<and> nextSequence w' = nextSequence w + 1 \<and>
           nextSequence w < nextSequence w'"
    and "nextSequence w \<le> nextSequence w'"
    and "r = Inr s \<Longrightarrow> \<exists>out. stream w' = stream w @ out \<and> entry_written t s k v out"
proof -
  let ?w2 = "(warn_once (nextSequence w) w)\<lparr>nextSequence := nextSequence w + 1\<rparr>"
  obtain r2 w3 where a: "write_entry ?w2 t (nextSequence w) k v = (r2, w3)"
    by (cases "write_entry ?w2 t (nextSequence w) k v")
  note e = write_entry_effect [OF a]
  have n3: "nextSequence w3 = nextSequence w + 1"
    using e(1) by (simp add: ctl_def)
  show "s = nextSequence w \<and> nextSequence w' = nextSequence w + 1 \<and>
           nextSequence w < nextSequence w'" if "r = Inr s"
    using that assms a e(2) [of s] n3
    by (auto simp: Append_def Let_def split: if_splits
        intro!: word_less_succ below_max_not_last)
  show "nextSequence w \<le> nextSequence w'"
    using assms a n3 word_less_succ [of "nextSequence w"]
    by (auto simp: Append_def Let_def split: if_splits
        dest!: below_max_not_last)
  show "\<exists>out. stream w' = stream w @ out \<and> entry_written t s k v out" if "r = Inr s"
    using that assms a e(2) [of s] e(4) [of s]
    by (auto simp: Append_def Let_def split: if_splits)
qed

lemma append_all_lower_bound:
  "append_all w xs = (rs, w') \<Longrightarrow> \<forall>s \<in> set (successes rs). nextSequence w \<le> s"
proof (induction xs arbitrary: w rs w')
  case Nil
  then show ?case by simp
next
  case (Cons x xs)
  obtain t k v where x: "x = (t, k, v)" by (cases x)
  obtain r w1 where a: "Append w t k v = (r, w1)" by (cases "Append w t k v")
  obtain rs1 w2 where b: "append_all w1 xs = (rs1, w2)" by (cases "append_all w1 xs")
  from Cons.prems x a b have rs: "rs = r # rs1" by simp
  have mono: "nextSequence w \<le> nextSequence w1" using Append_effect(2) [OF a] .
  have ih: "\<forall>s \<in> set (successes rs1). nextSequence w1 \<le> s" using Cons.IH [OF b] .
  show ?case
  proof (cases r)
    case (Inl e)
    with rs ih mono show ?thesis by auto
  next
    case (Inr s)
    from Append_effect(1) [OF a Inr] have "s = nextSequence w" by blast
    with Inr rs ih mono show ?thesis by auto
  qed
qed

lemma append_all_increasing:
  "append_all w xs = (rs, w') \<Longrightarrow> sorted_wrt (<) (successes rs)"
proof (induction xs arbitrary: w rs w')
  case Nil
  then show ?case by simp
next
  case (Cons x xs)
  obtain t k v where x: "x = (t, k, v)" by (cases x)
  obtain r w1 where a: "Append w t k v = (r, w1)" by (cases "Append w t k v")
  obtain rs1 w2 where b: "append_all w1 xs = (rs1, w2)" by (cases "append_all w1 xs")
  from Cons.prems x a b have rs: "rs = r # rs1" by simp
  have ih: "sorted_wrt (<) (successes rs1)" using Cons.IH [OF b] .
  have lb: "\<forall>s \<in> set (successes rs1). nextSequence w1 \<le> s"
    using append_all_lower_bound [OF b] .
  show ?case
  proof (cases r)
    case (Inl e)
    with rs ih show ?thesis by simp
  next
    case (Inr s)
    from Append_effect(1) [OF a Inr] have "s < nextSequence w1" by blast
    with lb have "\<forall>s' \<in> set (successes rs1). s < s'" by auto
    with Inr rs ih show ?thesis by simp
  qed
qed





lemma warn_mono_ctl: "ctl w' = ctl w \<Longrightarrow> warn_mono w w'"
  by (simp add: warn_mono_def ctl_def)

lemma warn_mono_ctl2: "ctl w' = ctl w1 \<Longrightarrow> warn_mono w w1 \<Longrightarrow> warn_mono w w'"
  by (simp add: warn_mono_def ctl_def)

lemma warn_mono_warn_once [simp]: "warn_mono w (warn_once s w)"
  by (simp add: warn_mono_def warn_once_def)

lemma warn_mono_upd [simp]:
  "warn_mono w (w1\<lparr>nextSequence := a\<rparr>) = warn_mono w w1"
  "warn_mono w (w1\<lparr>status := b\<rparr>) = warn_mono w w1"
  "warn_mono w (w1\<lparr>notifications := c\<rparr>) = warn_mono w w1"
  "warn_mono w (w1\<lparr>writer_buf := d\<rparr>) = warn_mono w w1"
  "warn_mono w (w1\<lparr>writer_size := e\<rparr>) = warn_mono w w1"
  "warn_mono w (w1\<lparr>writer_err := f\<rparr>) = warn_mono w w1"
  by (simp_all add: warn_mono_def)

lemma warn_mono_refl [simp]: "warn_mono w w"
  by (simp add: warn_mono_def)

lemma write_batch_effect:
  "write_batch w s i es = (e, w') \<Longrightarrow>
     ctl w' = ctl w \<and>
     (e = None \<longrightarrow> stream w' = stream w @ concat (map (\<lambda>x.
         phys_record RecordTypeFull (entry_payload (Type x) s (Key x) (Value x))) es)) \<and>
     (healthy w \<and> list_all (\<lambda>x. entrySize (Type x) (Key x) (Value x) \<le> MaxRecordSize) es
        \<longrightarrow> e = None \<and> healthy w')"
proof (induction es arbitrary: w i e w')
  case Nil
  then show ?case by simp
next
  case (Cons x es)
  obtain e1 w1 where a:
    "writeRecord w RecordTypeFull (Type x) s (Key x) (Value x) = (e1, w1)"
    by (cases "writeRecord w RecordTypeFull (Type x) s (Key x) (Value x)")
  note ea = writeRecord_effect [OF a]
  show ?case
  proof (cases e1)
    case (Some err)
    with Cons.prems a ea show ?thesis by auto
  next
    case None
    with Cons.prems a have b: "write_batch w1 s (i + 1) es = (e, w')" by simp
    from Cons.IH [OF b] ea None show ?thesis by auto
  qed
qed

lemma ensure_buffer_effect:
  "ensure_buffer w n = (e, w') \<Longrightarrow>
     ctl w' = ctl w \<and> (e = None \<longrightarrow> stream w' = stream w) \<and>
     (healthy w \<longrightarrow> e = None \<and> healthy w')"
  by (auto simp: ensure_buffer_def stream_def healthy_def split: if_splits prod.splits bool.splits
      dest!: bufio_Flush_effect)

lemma AppendBatch_effect:
  assumes "AppendBatch w es = (r, w')"
  shows "warn_mono w w'"
    and "r = Inr s \<Longrightarrow> es \<noteq> [] \<Longrightarrow>
           s = nextSequence w \<and> nextSequence w' = nextSequence w + 1 \<and>
           stream w' = stream w @ batch_written s es"
proof -
  let ?w1 = "warn_once (nextSequence w) w"
  obtain e2 w2 where a: "ensure_buffer ?w1 (batch_totalSize es) = (e2, w2)"
    by (cases "ensure_buffer ?w1 (batch_totalSize es)")
  obtain e3 w3 where b: "write_batch w2 (nextSequence w) 0 es = (e3, w3)"
    by (cases "write_batch w2 (nextSequence w) 0 es")
  let ?w5 = "w3\<lparr>nextSequence := nextSequence w + 1,
     notifications := notifications w3 @ [OnWALBatchWritten (nextSequence w) es]\<rparr>"
  obtain e6 w6 where c: "maybeSync ?w5 = (e6, w6)" by (cases "maybeSync ?w5")
  note ea = ensure_buffer_effect [OF a]
  note eb = write_batch_effect [OF b]
  note ec = maybeSync_effect [OF c]
  have m2: "warn_mono w w2" using ea by (auto intro: warn_mono_ctl2 [of w2 ?w1])
  have m3: "warn_mono w w3" using eb m2 by (auto intro: warn_mono_ctl2)
  have m6: "warn_mono w w6" using ec m3 by (auto intro: warn_mono_ctl2 [of w6 ?w5])
  show "warn_mono w w'"
    using assms a b c m2 m3 m6
    by (auto simp: AppendBatch_def Let_def split: if_splits option.splits)
  show "s = nextSequence w \<and> nextSequence w' = nextSequence w + 1 \<and>
           stream w' = stream w @ batch_written s es" if "r = Inr s" "es \<noteq> []"
  proof -
    have ok: "e2 = None" "e3 = None" "e6 = None" "w' = w6" "s = nextSequence w"
      using that assms a b c
      by (auto simp: AppendBatch_def Let_def split: if_splits option.splits)
    have "nextSequence w6 = nextSequence w + 1" using ec by (simp add: ctl_def)
    moreover have "stream w6 = stream w @ batch_written s es"
      using ea eb ec ok by (simp add: batch_written_def)
    ultimately show ?thesis using ok by simp
  qed
qed






lemma Append_succeeds:
  assumes "status w = WALStatusActive" "valid_op t" "nextSequence w < MaxSequenceNumber" "healthy w"
  shows "fst (Append w t k v) = Inr (nextSequence w)" and "healthy (snd (Append w t k v))"
proof -
  let ?w2 = "(warn_once (nextSequence w) w)\<lparr>nextSequence := nextSequence w + 1\<rparr>"
  obtain r2 w3 where a: "write_entry ?w2 t (nextSequence w) k v = (r2, w3)"
    by (cases "write_entry ?w2 t (nextSequence w) k v")
  have "r2 = Inr (nextSequence w) \<and> healthy w3"
    using write_entry_effect(3) [OF a] assms by simp
  with a assms show "fst (Append w t k v) = Inr (nextSequence w)"
    and "healthy (snd (Append w t k v))"
    by (simp_all add: Append_def Let_def)
qed

lemma NewWAL_fields [simp]:
  "status (NewWAL c fs) = WALStatusActive"
  "nextSequence (NewWAL c fs) = 1"
  "healthy (NewWAL c []) = True"
  "overflowWarning (NewWAL c fs) = False"
  "warnings (NewWAL c fs) = 0"
  "stream (NewWAL c fs) = []"
  "cfg (NewWAL c fs) = c"
  by (simp_all add: NewWAL_def healthy_def stream_def)

lemma MaxSequenceNumber_eq: "MaxSequenceNumber = 18446744073708551615"
  by (simp add: MaxSequenceNumber_def)

lemma SequenceWarningThreshold_eq: "SequenceWarningThreshold = 18446744073699551615"
  by (simp add: SequenceWarningThreshold_def)

lemma one_below_max [simp]: "(1 :: 64 word) < MaxSequenceNumber"
  by (simp add: MaxSequenceNumber_eq)

lemma valid_op_simps [simp]: "valid_op OpTypePut" "valid_op OpTypeDelete" "valid_op OpTypeMerge"
  by (simp_all add: valid_op_def)

lemma AppendBatch_succeeds:
  assumes "status w = WALStatusActive" "es \<noteq> []" "nextSequence w < MaxSequenceNumber" "healthy w"
    and "list_all (\<lambda>x. entrySize (Type x) (Key x) (Value x) \<le> MaxRecordSize) es"
  shows "fst (AppendBatch w es) = Inr (nextSequence w)" and "healthy (snd (AppendBatch w es))"
proof -
  let ?w1 = "warn_once (nextSequence w) w"
  obtain e2 w2 where a: "ensure_buffer ?w1 (batch_totalSize es) = (e2, w2)"
    by (cases "ensure_buffer ?w1 (batch_totalSize es)")
  obtain e3 w3 where b: "write_batch w2 (nextSequence w) 0 es = (e3, w3)"
    by (cases "write_batch w2 (nextSequence w) 0 es")
  let ?w5 = "w3\<lparr>nextSequence := nextSequence w + 1,
     notifications := notifications w3 @ [OnWALBatchWritten (nextSequence w) es]\<rparr>"
  obtain e6 w6 where c: "maybeSync ?w5 = (e6, w6)" by (cases "maybeSync ?w5")
  note ea = ensure_buffer_effect [OF a]
  note eb = write_batch_effect [OF b]
  note ec = maybeSync_effect [OF c]
  have 2: "e2 = None" "healthy w2" "status w2 = WALStatusActive"
    using ea assms by (simp_all add: ctl_def)
  have 3: "e3 = None" "healthy w3" "status w3 = WALStatusActive"
    using eb 2 assms by (simp_all add: ctl_def)
  have 6: "e6 = None" "healthy w6" using ec 3 by simp_all
  show "fst (AppendBatch w es) = Inr (nextSequence w)" "healthy (snd (AppendBatch w es))"
    using assms a b c 2 3 6 by (simp_all add: AppendBatch_def Let_def)
qed


section \<open>Warnings and caller-supplied sequence numbers\<close>

lemma file_Close_effect:
  "file_Close w = (b, w') \<Longrightarrow>
     ctl w' = ctl w \<and> stream w' = stream w \<and> (healthy w \<longrightarrow> b \<and> healthy w')"
  by (auto simp: file_Close_def next_fault_def ctl_def stream_def healthy_def
      split: list.splits)

lemma AppendWithSequence_effect:
  assumes "AppendWithSequence w t k v s = (r, w')"
  shows "warn_mono w w'"
    and "r = Inr x \<Longrightarrow> x = s \<and> nextSequence w' = max (nextSequence w) (s + 1)"
proof -
  let ?w2 = "if s \<ge> nextSequence w then (warn_once (s + 1) w)\<lparr>nextSequence := s + 1\<rparr> else w"
  obtain r2 w3 where a: "write_entry ?w2 t s k v = (r2, w3)"
    by (cases "write_entry ?w2 t s k v")
  note e = write_entry_effect [OF a]
  have m2: "warn_mono w ?w2" by simp
  have m3: "warn_mono w w3" using e(1) m2 by (rule warn_mono_ctl2)
  show "warn_mono w w'"
    using assms a m3 by (auto simp: AppendWithSequence_def Let_def split: if_splits)
  show "x = s \<and> nextSequence w' = max (nextSequence w) (s + 1)" if "r = Inr x"
  proof -
    have ok: "\<not> MaxSequenceNumber \<le> s" "w' = w3" "r2 = r"
      using that assms a by (auto simp: AppendWithSequence_def Let_def split: if_splits)
    have lt: "s < s + 1" using ok(1) by (intro word_less_succ below_max_not_last)
    have n3: "nextSequence w3 = nextSequence ?w2" using e(1) by (simp add: ctl_def)
    have "nextSequence ?w2 = max (nextSequence w) (s + 1)"
    proof (cases "s \<ge> nextSequence w")
      case True
      with lt have "nextSequence w \<le> s + 1" by simp
      with True show ?thesis by (simp add: max_def)
    next
      case False
      then have "s < nextSequence w" by simp
      then have "s + 1 \<le> nextSequence w" by (rule inc_le)
      with False show ?thesis by (simp add: max_def)
    qed
    with n3 ok e(2) [of x] that show ?thesis by simp
  qed
qed

lemma AppendBatchWithSequence_effect:
  assumes "AppendBatchWithSequence w es s = (r, w')"
  shows "warn_mono w w'"
proof -
  let ?w1 = "warn_once s w"
  obtain e2 w2 where a: "ensure_buffer ?w1 (batch_totalSize es) = (e2, w2)"
    by (cases "ensure_buffer ?w1 (batch_totalSize es)")
  obtain e3 w3 where b: "write_batch w2 s 0 es = (e3, w3)"
    by (cases "write_batch w2 s 0 es")
  let ?w4 = "if s + 1 > nextSequence w3 then w3\<lparr>nextSequence := s + 1\<rparr> else w3"
  let ?w5 = "?w4\<lparr>notifications := notifications ?w4 @ [OnWALBatchWritten s es]\<rparr>"
  obtain e6 w6 where c: "maybeSync ?w5 = (e6, w6)" by (cases "maybeSync ?w5")
  note ea = ensure_buffer_effect [OF a]
  note eb = write_batch_effect [OF b]
  note ec = maybeSync_effect [OF c]
  have m2: "warn_mono w w2" using ea by (auto intro: warn_mono_ctl2 [of w2 ?w1])
  have m3: "warn_mono w w3" using eb m2 by (auto intro: warn_mono_ctl2)
  have m5: "warn_mono w ?w5" using m3 by simp
  have m6: "warn_mono w w6" using ec m5 by (auto intro: warn_mono_ctl2 [of w6 ?w5])
  show "warn_mono w w'"
    using assms a b c m2 m3 m6
    by (auto simp: AppendBatchWithSequence_def Let_def split: if_splits option.splits)
qed

lemma AppendExactBytes_rejects:
  "\<not> raw_ok raw \<Longrightarrow> status w = WALStatusActive \<Longrightarrow>
     AppendExactBytes w raw s =
       (Inl (if length raw < HeaderSize then RawRecordTooSmall (length raw)
             else RawRecordSizeMismatch (declaredPayloadSize raw) (length raw)), w)"
  unfolding raw_ok_def AppendExactBytes_def Let_def
  by (cases "length raw < HeaderSize") simp_all

lemma AppendExactBytes_accepts:
  "raw_ok raw \<Longrightarrow> status w = WALStatusActive \<Longrightarrow>
     AppendExactBytes w raw s =
       (case writeRecordData (if s \<ge> nextSequence w then w\<lparr>nextSequence := s + 1\<rparr> else w)
               (take HeaderSize raw) (drop HeaderSize raw) of
          (Some e, w2) \<Rightarrow> (Inl (WriteRawFailed e), w2)
        | (None, w2) \<Rightarrow>
            (case drop HeaderSize raw of
               [] \<Rightarrow> (Inl PanicIndexOutOfRange, w2)
             | t # _ \<Rightarrow>
                (case maybeSync (w2\<lparr>notifications := notifications w2 @ [OnWALEntryWritten
                        \<lparr>SequenceNumber = s, Type = t, Key = [], Value = [], rawBytes = []\<rparr>]\<rparr>) of
                   (Some e, w4) \<Rightarrow> (Inl e, w4)
                 | (None, w4) \<Rightarrow> (Inr s, w4))))"
  unfolding raw_ok_def AppendExactBytes_def Let_def by simp

lemma AppendExactBytes_effect:
  assumes "AppendExactBytes w raw s = (r, w')"
  shows "warn_mono w w'"
    and "r = Inr x \<Longrightarrow> x = s \<and>
           nextSequence w' = (if s \<ge> nextSequence w then s + 1 else nextSequence w) \<and>
           length raw = HeaderSize + declaredPayloadSize raw"
proof -
  let ?w1 = "if s \<ge> nextSequence w then w\<lparr>nextSequence := s + 1\<rparr> else w"
  obtain e2 w2 where a: "writeRecordData ?w1 (take HeaderSize raw) (drop HeaderSize raw) = (e2, w2)"
    by (cases "writeRecordData ?w1 (take HeaderSize raw) (drop HeaderSize raw)")
  note ea = writeRecordData_effect [OF a]
  have m1: "warn_mono w ?w1" by simp
  have m2: "warn_mono w w2" using ea m1 by (auto intro: warn_mono_ctl2 [of w2 ?w1])
  have n2: "nextSequence w2 = nextSequence ?w1" using ea by (simp add: ctl_def)
  have rej: "w' = w \<and> (\<exists>e. r = Inl e)" if "\<not> (raw_ok raw \<and> status w = WALStatusActive)"
  proof (cases "status w")
    case WALStatusActive
    with that assms AppendExactBytes_rejects [of raw w s] show ?thesis by auto
  next
    case WALStatusRotating
    with assms show ?thesis by (auto simp: AppendExactBytes_def)
  next
    case WALStatusClosed
    with assms show ?thesis by (auto simp: AppendExactBytes_def)
  qed
  have acc: "warn_mono w w' \<and> (r = Inr x \<longrightarrow> x = s \<and> nextSequence w' = nextSequence ?w1)"
    if ok: "raw_ok raw" "status w = WALStatusActive"
  proof (cases e2)
    case (Some e)
    with assms a AppendExactBytes_accepts [OF ok, of s] m2 show ?thesis by auto
  next
    case None
    show ?thesis
    proof (cases "drop HeaderSize raw")
      case Nil
      with assms a None AppendExactBytes_accepts [OF ok, of s] m2 show ?thesis by auto
    next
      case (Cons t rest)
      let ?w3 = "w2\<lparr>notifications := notifications w2 @ [OnWALEntryWritten
         \<lparr>SequenceNumber = s, Type = t, Key = [], Value = [], rawBytes = []\<rparr>]\<rparr>"
      obtain e4 w4 where c: "maybeSync ?w3 = (e4, w4)" by (cases "maybeSync ?w3")
      have c4: "ctl w4 = ctl ?w3" using maybeSync_effect [OF c] by simp
      then have m4: "warn_mono w w4" using m2 by (auto intro: warn_mono_ctl2 [of w4 ?w3])
      have n4: "nextSequence w4 = nextSequence ?w1" using c4 n2 by (simp add: ctl_def)
      from assms a None Cons c AppendExactBytes_accepts [OF ok, of s]
      have "w' = w4 \<and> (r = Inr x \<longrightarrow> x = s)" by (cases e4) auto
      with m4 n4 show ?thesis by simp
    qed
  qed
  show "warn_mono w w'" using rej acc by (cases "raw_ok raw \<and> status w = WALStatusActive") auto
  show "x = s \<and> nextSequence w' = (if s \<ge> nextSequence w then s + 1 else nextSequence w) \<and>
           length raw = HeaderSize + declaredPayloadSize raw" if rx: "r = Inr x"
  proof -
    have ok: "raw_ok raw \<and> status w = WALStatusActive" using rej rx by auto
    with acc rx show ?thesis by (auto simp: raw_ok_def)
  qed
qed

lemma Append_warn_mono: "warn_mono w (snd (Append w t k v))"
proof -
  let ?w2 = "(warn_once (nextSequence w) w)\<lparr>nextSequence := nextSequence w + 1\<rparr>"
  obtain r2 w3 where a: "write_entry ?w2 t (nextSequence w) k v = (r2, w3)"
    by (cases "write_entry ?w2 t (nextSequence w) k v")
  have "warn_mono w ?w2" by simp
  with write_entry_effect(1) [OF a] have "warn_mono w w3" by (rule warn_mono_ctl2)
  with a show ?thesis by (simp add: Append_def Let_def)
qed

lemma Close_warn_mono: "warn_mono w (snd (Close w))"
  by (auto simp: Close_def warn_mono_def ctl_def split: prod.splits bool.splits
      dest!: bufio_Flush_effect file_Sync_effect file_Close_effect)

lemma step_warn_mono: "warn_mono w (step w op)"
proof (cases op)
  case (OpAppend t k v)
  then show ?thesis by (simp add: Append_warn_mono)
next
  case (OpAppendWithSequence t k v s)
  then show ?thesis
    using AppendWithSequence_effect(1) [of w t k v s] by (simp add: prod_eq_iff)
next
  case (OpAppendBatch es)
  then show ?thesis using AppendBatch_effect(1) [of w es] by (simp add: prod_eq_iff)
next
  case (OpAppendBatchWithSequence es s)
  then show ?thesis using AppendBatchWithSequence_effect [of w es s] by (simp add: prod_eq_iff)
next
  case (OpAppendExactBytes raw s)
  then show ?thesis using AppendExactBytes_effect(1) [of w raw s] by (simp add: prod_eq_iff)
next
  case OpSync
  then show ?thesis
    using syncLocked_effect [of w "fst (syncLocked w)" "snd (syncLocked w)"]
    by (simp add: Sync_def warn_mono_ctl)
next
  case OpClose
  then show ?thesis by (simp add: Close_warn_mono)
next
  case OpSetRotating
  then show ?thesis by (simp add: SetRotating_def)
next
  case OpSetActive
  then show ?thesis by (simp add: SetActive_def)
next
  case (OpUpdateNextSequence s)
  then show ?thesis by (simp add: UpdateNextSequence_def)
qed

lemma run_snoc: "run w (ops @ [op]) = step (run w ops) op"
  by (simp add: run_def)

lemma run_warning_flag_stays:
  "overflowWarning w \<Longrightarrow> overflowWarning (run w ops) \<and> warnings (run w ops) = warnings w"
proof (induction ops rule: rev_induct)
  case Nil
  then show ?case by (simp add: run_def)
next
  case (snoc op ops)
  with step_warn_mono [of "run w ops" op] show ?case
    by (auto simp: run_snoc warn_mono_def)
qed

lemma run_warns_at_most_once:
  "warnings w = (if overflowWarning w then 1 else 0) \<Longrightarrow>
     warnings (run w ops) = (if overflowWarning (run w ops) then 1 else 0)"
proof (induction ops rule: rev_induct)
  case Nil
  then show ?case by (simp add: run_def)
next
  case (snoc op ops)
  with step_warn_mono [of "run w ops" op] show ?case
    by (auto simp: run_snoc warn_mono_def split: if_splits)
qed


lemma Append_in_warning_zone:
  assumes "status w = WALStatusActive" "valid_op t" "nextSequence w < MaxSequenceNumber"
    "SequenceWarningThreshold \<le> nextSequence w"
  shows "overflowWarning (snd (Append w t k v))"
    and "warnings (snd (Append w t k v)) = (if overflowWarning w then warnings w else warnings w + 1)"
proof -
  let ?w2 = "(warn_once (nextSequence w) w)\<lparr>nextSequence := nextSequence w + 1\<rparr>"
  obtain r2 w3 where a: "write_entry ?w2 t (nextSequence w) k v = (r2, w3)"
    by (cases "write_entry ?w2 t (nextSequence w) k v")
  have c: "ctl w3 = ctl ?w2" using write_entry_effect(1) [OF a] .
  have s: "snd (Append w t k v) = w3" using assms a by (simp add: Append_def Let_def)
  show "overflowWarning (snd (Append w t k v))"
    using c s assms by (simp add: ctl_def warn_once_def)
  show "warnings (snd (Append w t k v)) = (if overflowWarning w then warnings w else warnings w + 1)"
    using c s assms by (simp add: ctl_def warn_once_def)
qed

lemma wal_at_fields [simp]:
  "status (wal_at n) = WALStatusActive" "nextSequence (wal_at n) = n" "healthy (wal_at n)"
  "overflowWarning (wal_at n) = False" "warnings (wal_at n) = 0"
  by (simp_all add: wal_at_def)

lemma AppendExactBytes_succeeds:
  assumes "status w = WALStatusActive" "healthy w" "raw_ok raw" "drop HeaderSize raw \<noteq> []"
  shows "fst (AppendExactBytes w raw s) = Inr s"
proof -
  let ?w1 = "if s \<ge> nextSequence w then w\<lparr>nextSequence := s + 1\<rparr> else w"
  obtain e2 w2 where a: "writeRecordData ?w1 (take HeaderSize raw) (drop HeaderSize raw) = (e2, w2)"
    by (cases "writeRecordData ?w1 (take HeaderSize raw) (drop HeaderSize raw)")
  note ea = writeRecordData_effect [OF a]
  have 2: "e2 = None" "healthy w2" "status w2 = WALStatusActive"
    using ea assms by (simp_all add: ctl_def)
  obtain t rest where pl: "drop HeaderSize raw = t # rest"
    using assms(4) by (cases "drop HeaderSize raw") auto
  let ?w3 = "w2\<lparr>notifications := notifications w2 @ [OnWALEntryWritten
     \<lparr>SequenceNumber = s, Type = t, Key = [], Value = [], rawBytes = []\<rparr>]\<rparr>"
  obtain e4 w4 where c: "maybeSync ?w3 = (e4, w4)" by (cases "maybeSync ?w3")
  have "e4 = None" using maybeSync_effect [OF c] 2 by simp
  with a c pl 2 AppendExactBytes_accepts [OF assms(3) assms(1), of s] show ?thesis by simp
qed

lemma AppendExactBytes_max_law:
  assumes "AppendExactBytes w raw s = (Inr x, w')" "s \<noteq> - 1"
  shows "nextSequence w' = max (nextSequence w) (s + 1)"
proof -
  have n: "nextSequence w' = (if s \<ge> nextSequence w then s + 1 else nextSequence w)"
    using AppendExactBytes_effect(2) [OF assms(1) refl] by simp
  have lt: "s < s + 1" using assms(2) by (rule word_less_succ)
  show ?thesis
  proof (cases "s \<ge> nextSequence w")
    case True
    with lt have "nextSequence w \<le> s + 1" by simp
    with True n show ?thesis by (simp add: max_def)
  next
    case False
    then have "s < nextSequence w" by simp
    then have "s + 1 \<le> nextSequence w" by (rule inc_le)
    with False n show ?thesis by (simp add: max_def)
  qed
qed

lemma stream_wal_at [simp]: "stream (wal_at n) = []"
  by (simp add: wal_at_def)

lemma AppendExactBytes_writes:
  assumes "AppendExactBytes w raw s = (Inr x, w')"
  shows "stream w' = stream w @ raw"
    and "status w' = WALStatusActive"
    and "overflowWarning w' = overflowWarning w"
    and "warnings w' = warnings w"
proof -
  let ?w1 = "if s \<ge> nextSequence w then w\<lparr>nextSequence := s + 1\<rparr> else w"
  have act: "status w = WALStatusActive"
    using assms by (cases "status w") (auto simp: AppendExactBytes_def)
  have ok: "raw_ok raw"
  proof (rule ccontr)
    assume "\<not> raw_ok raw"
    from AppendExactBytes_rejects [OF this act, of s] assms show False by simp
  qed
  obtain e2 w2 where a: "writeRecordData ?w1 (take HeaderSize raw) (drop HeaderSize raw) = (e2, w2)"
    by (cases "writeRecordData ?w1 (take HeaderSize raw) (drop HeaderSize raw)")
  note ea = writeRecordData_effect [OF a]
  note acc = AppendExactBytes_accepts [OF ok act, of s]
  have e2: "e2 = None"
    using assms acc a by (cases e2) simp_all
  obtain t rest where pl: "drop HeaderSize raw = t # rest"
    using assms acc a e2 by (cases "drop HeaderSize raw") simp_all
  let ?w3 = "w2\<lparr>notifications := notifications w2 @ [OnWALEntryWritten
     \<lparr>SequenceNumber = s, Type = t, Key = [], Value = [], rawBytes = []\<rparr>]\<rparr>"
  obtain e4 w4 where c: "maybeSync ?w3 = (e4, w4)" by (cases "maybeSync ?w3")
  note ec = maybeSync_effect [OF c]
  have e4: "e4 = None" and w4: "w4 = w'"
    using assms acc a e2 pl c by (cases e4; simp)+
  have st: "stream w' = stream ?w1 @ take HeaderSize raw @ drop HeaderSize raw"
    using ea ec e2 e4 w4 by simp
  have ct: "ctl w' = ctl ?w1"
    using ea ec w4 by simp
  show "stream w' = stream w @ raw" using st by simp
  show "status w' = WALStatusActive" using ct act by (simp add: ctl_def)
  show "overflowWarning w' = overflowWarning w" using ct by (simp add: ctl_def)
  show "warnings w' = warnings w" using ct by (simp add: ctl_def)
qed

text \<open>The observers are told of the entry as it was given to \<^verbatim>\<open>Append\<close>.\<close>

lemma bufio_Write_notifications:
  "bufio_Write w p = (b, w') \<Longrightarrow> notifications w' = notifications w"
  by (auto simp: bufio_Write_def bufio_Flush_def bufio_Available_def file_Write_def
      next_fault_def Let_def split: if_splits list.splits bool.splits)

lemma writeRecordData_notifications:
  "writeRecordData w h p = (e, w') \<Longrightarrow> notifications w' = notifications w"
  by (auto simp: writeRecordData_def split: prod.splits bool.splits
      dest!: bufio_Write_notifications)

lemma writeRecord_notifications:
  "writeRecord w rt t s k v = (e, w') \<Longrightarrow> notifications w' = notifications w"
  by (auto simp: writeRecord_def writeRawRecord_def split: if_splits
      dest!: writeRecordData_notifications)

lemma maybeSync_notifications:
  "maybeSync w = (e, w') \<Longrightarrow> \<exists>ns. notifications w' = notifications w @ ns"
  by (auto simp: maybeSync_def syncLocked_def bufio_Flush_def file_Sync_def file_Write_def
      next_fault_def Let_def split: if_splits prod.splits bool.splits list.splits)

lemma Append_notifies:
  assumes "Append w t k v = (Inr s, w')" "entrySize t k v \<le> MaxRecordSize"
  shows "\<exists>ns. notifications w' = notifications w @
     OnWALEntryWritten \<lparr>SequenceNumber = s, Type = t, Key = k, Value = v, rawBytes = []\<rparr> # ns"
proof -
  let ?w2 = "(warn_once (nextSequence w) w)\<lparr>nextSequence := nextSequence w + 1\<rparr>"
  have n2: "notifications ?w2 = notifications w" by (simp add: warn_once_def)
  have we: "write_entry ?w2 t (nextSequence w) k v = (Inr s, w')"
    using assms(1) by (cases "status w") (auto simp: Append_def Let_def split: if_splits)
  have s: "s = nextSequence w" using write_entry_effect(2) [OF we refl] by simp
  obtain e1 w1 where a: "writeRecord ?w2 RecordTypeFull t s k v = (e1, w1)"
    by (cases "writeRecord ?w2 RecordTypeFull t s k v")
  let ?w3 = "w1\<lparr>notifications := notifications w1 @ [OnWALEntryWritten
       \<lparr>SequenceNumber = s, Type = t, Key = k, Value = v, rawBytes = []\<rparr>]\<rparr>"
  obtain e3 w3 where b: "maybeSync ?w3 = (e3, w3)" by (cases "maybeSync ?w3")
  have e1: "e1 = None" using we a assms(2) s by (cases e1) (simp_all add: write_entry_def)
  have "e3 = None \<and> w3 = w'"
    using we a b e1 assms(2) s by (cases e3) (simp_all add: write_entry_def Let_def)
  then show ?thesis
    using writeRecord_notifications [OF a] maybeSync_notifications [OF b] n2 by auto
qed

section \<open>Order of the skip list, immutable memtables, recovery\<close>

lemma entry_le_trans: "entry_le a b \<Longrightarrow> entry_le b c \<Longrightarrow> entry_le a c"
  by (auto simp: entry_le_def entry_less_def)

lemma entry_less_imp_le: "entry_less a b \<Longrightarrow> entry_le a b"
  by (auto simp: entry_le_def entry_less_def)

lemma set_sl_splice [simp]: "set (sl_splice e xs) = insert e (set xs)"
  by (induction xs) auto

lemma sorted_sl_splice:
  "sorted_wrt entry_le xs \<Longrightarrow> sorted_wrt entry_le (sl_splice e xs)"
proof (induction xs)
  case Nil
  then show ?case by simp
next
  case (Cons x xs)
  from Cons.prems have sx: "sorted_wrt entry_le xs" and hx: "\<forall>y \<in> set xs. entry_le x y"
    by simp_all
  show ?case
  proof (cases "entry_less x e")
    case True
    then have "entry_le x e" by (rule entry_less_imp_le)
    with True hx Cons.IH [OF sx] show ?thesis by simp
  next
    case False
    then have ex: "entry_le e x" by (simp add: entry_le_def)
    then have "\<forall>y \<in> set xs. entry_le e y" using hx by (blast intro: entry_le_trans)
    with False ex hx sx show ?thesis by simp
  qed
qed

lemma find_newest:
  "sorted_wrt entry_le xs \<Longrightarrow> find (\<lambda>e. ekey e = k) xs = Some r \<Longrightarrow>
     r \<in> set xs \<and> ekey r = k \<and> (\<forall>e \<in> set xs. ekey e = k \<longrightarrow> seqNum e \<le> seqNum r)"
proof (induction xs)
  case Nil
  then show ?case by simp
next
  case (Cons x xs)
  show ?case
  proof (cases "ekey x = k")
    case True
    with Cons.prems have r: "r = x" by simp
    from Cons.prems have "\<forall>e \<in> set xs. entry_le x e" by simp
    with True have "\<forall>e \<in> set xs. ekey e = k \<longrightarrow> seqNum e \<le> seqNum x"
      by (auto simp: entry_le_def entry_less_def)
    with r True show ?thesis by simp
  next
    case False
    with Cons show ?thesis by auto
  qed
qed

lemma find_absent:
  "find (\<lambda>e. ekey e = k) xs = None \<longleftrightarrow> (\<forall>e \<in> set xs. ekey e \<noteq> k)"
  by (induction xs) auto

lemma immutable_no_op:
  "immutable m \<Longrightarrow> Put sz m k v s = m"
  "immutable m \<Longrightarrow> Delete sz m k s = m"
  "immutable m \<Longrightarrow> ProcessWALEntry sz m e = m"
  "immutable m \<Longrightarrow> SetImmutable m = m"
  by (simp_all add: Put_def Delete_def ProcessWALEntry_def SetImmutable_def IsImmutable_def)

lemma mem_step_immutable: "immutable m \<Longrightarrow> mem_step sz m op = m"
  by (cases op) (simp_all add: immutable_no_op)

lemma mem_run_immutable: "immutable m \<Longrightarrow> mem_run sz m ops = m"
  unfolding mem_run_def by (induction ops) (simp_all add: mem_step_immutable)

lemma records_Put:
  "records (Put sz m k v s) =
     (if immutable m then records m else sl_splice (newEntry k v TypeValue s) (records m))"
  by (simp add: Put_def records_def Insert_def IsImmutable_def Let_def)

lemma records_Delete:
  "records (Delete sz m k s) =
     (if immutable m then records m else sl_splice (newEntry k [] TypeDeletion s) (records m))"
  by (simp add: Delete_def records_def Insert_def IsImmutable_def Let_def)

lemma sorted_mem_step:
  "sorted_wrt entry_le (records m) \<Longrightarrow> sorted_wrt entry_le (records (mem_step sz m op))"
proof (cases op)
  case (MPut k v s)
  assume "sorted_wrt entry_le (records m)"
  with MPut show ?thesis by (simp add: records_Put sorted_sl_splice)
next
  case (MDelete k s)
  assume "sorted_wrt entry_le (records m)"
  with MDelete show ?thesis by (simp add: records_Delete sorted_sl_splice)
next
  case MSetImmutable
  assume "sorted_wrt entry_le (records m)"
  with MSetImmutable show ?thesis by (simp add: SetImmutable_def records_def)
next
  case (MProcessWALEntry e)
  assume "sorted_wrt entry_le (records m)"
  with MProcessWALEntry show ?thesis
    by (simp add: ProcessWALEntry_def records_Put records_Delete sorted_sl_splice)
qed

lemma sorted_mem_run:
  "sorted_wrt entry_le (records m) \<Longrightarrow> sorted_wrt entry_le (records (mem_run sz m ops))"
  unfolding mem_run_def
  by (induction ops arbitrary: m) (simp_all add: sorted_mem_step)

lemma records_NewMemTable [simp]: "records NewMemTable = []"
  by (simp add: records_def NewMemTable_def NewSkipList_def)

lemma Get_eq:
  "Get m k = (case find (\<lambda>e. ekey e = k) (records m) of
       None \<Rightarrow> ([], False)
     | Some e \<Rightarrow> if valueType e = TypeDeletion then ([], True) else (evalue e, True))"
  by (simp add: Get_def Find_def records_def)


lemma replay_entries_append:
  "replay_entries h st (xs @ ys) =
     (case replay_entries h st xs of Inl err \<Rightarrow> Inl err | Inr st' \<Rightarrow> replay_entries h st' ys)"
  by (induction xs arbitrary: st) (auto split: sum.splits)

lemma mutable_stays_mutable:
  "\<not> immutable m \<Longrightarrow> \<not> immutable (ProcessWALEntry sz m e)"
  by (simp add: ProcessWALEntry_def Put_def Delete_def IsImmutable_def Let_def)

lemma entryHandler_cases:
  "entryHandler opts sz (mts, mx) e =
     (if SequenceNumber e > optMaxSequenceNumber opts then Inr (mts, mx)
      else if mts = [] then Inl IndexOutOfRange
      else if ApproximateSize (last mts) \<ge> optMemTableSize opts then
        (if int (length mts) \<ge> optMaxMemTables opts
         then Inl (MaxMemTablesExceeded (optMaxMemTables opts))
         else Inr (butlast mts @ [SetImmutable (last mts), ProcessWALEntry sz NewMemTable e],
                   max mx (SequenceNumber e)))
      else Inr (butlast mts @ [ProcessWALEntry sz (last mts) e], max mx (SequenceNumber e)))"
  by (auto simp: entryHandler_def Let_def max_def)

lemma entryHandler_pool_ok:
  assumes "entryHandler opts sz (mts, mx) e = Inr (mts', mx')" "pool_ok opts mts"
  shows "pool_ok opts mts'"
    and "mx' = (if SequenceNumber e > optMaxSequenceNumber opts then mx
                else max mx (SequenceNumber e))"
proof -
  have ne: "mts \<noteq> []" using assms(2) by (simp add: pool_ok_def)
  have nm: "\<not> immutable NewMemTable" by (simp add: NewMemTable_def)
  have lm: "\<not> immutable (last mts)" using assms(2) by (simp add: pool_ok_def IsImmutable_def)
  show "pool_ok opts mts'"
    using assms ne mutable_stays_mutable [OF nm, of sz e] mutable_stays_mutable [OF lm, of sz e]
    by (auto simp: entryHandler_cases pool_ok_def IsImmutable_def SetImmutable_def
        butlast_append split: if_splits)
  show "mx' = (if SequenceNumber e > optMaxSequenceNumber opts then mx
               else max mx (SequenceNumber e))"
    using assms ne by (auto simp: entryHandler_cases split: if_splits)
qed

lemma replay_entries_invariant:
  "replay_entries (entryHandler opts sz) (mts, mx) es = Inr (mts', mx') \<Longrightarrow> pool_ok opts mts \<Longrightarrow>
     pool_ok opts mts' \<and> mx' = foldl max mx (map SequenceNumber (replayed opts es))"
proof (induction es arbitrary: mts mx)
  case Nil
  then show ?case by (simp add: replayed_def)
next
  case (Cons e es)
  from Cons.prems(1) obtain mts1 mx1 where
    h: "entryHandler opts sz (mts, mx) e = Inr (mts1, mx1)"
    and r: "replay_entries (entryHandler opts sz) (mts1, mx1) es = Inr (mts', mx')"
    by (auto split: sum.splits)
  note eh = entryHandler_pool_ok [OF h Cons.prems(2)]
  from Cons.IH [OF r eh(1)] eh(2) show ?case
    by (simp add: replayed_def)
qed


lemma memtable_a_size: "ApproximateSize memtable_a = 10"
  by (simp add: memtable_a_def entry_a_def ProcessWALEntry_def Put_def IsImmutable_def
      NewMemTable_def Let_def Insert_def NewSkipList_def ApproximateSize_def newEntry_def
      example_size_def OpTypePut_def)

lemma replay_a:
  "replay_entries (entryHandler (example_opts n) example_size) ([NewMemTable], 0) [entry_a]
     = Inr ([memtable_a], 3)"
  by (simp add: entryHandler_cases example_opts_def entry_a_def memtable_a_def
      ApproximateSize_def NewMemTable_def NewSkipList_def)


section \<open>Reading back what was written\<close>

lemma length_PutUint [simp]:
  "length (PutUint16 a) = 2" "length (PutUint32 b) = 4" "length (PutUint64 c) = 8"
  by (simp_all add: PutUint16_def PutUint32_def PutUint64_def)

lemma Uint16_PutUint16: "Uint16 (PutUint16 v @ xs) = v"
proof (rule bit_word_eqI)
  fix n :: nat
  assume "n < LENGTH(16)"
  then consider "n < 8" | "8 \<le> n" "n < 16"
    by fastforce
  then show "bit (Uint16 (PutUint16 v @ xs)) n = bit v n"
    by cases (auto simp add: Uint16_def PutUint16_def bit_simps)
qed

lemma Uint32_PutUint32: "Uint32 (PutUint32 v @ xs) = v"
proof (rule bit_word_eqI)
  fix n :: nat
  assume "n < LENGTH(32)"
  then consider "n < 8" | "8 \<le> n" "n < 16" | "16 \<le> n" "n < 24" | "24 \<le> n" "n < 32"
    by fastforce
  then show "bit (Uint32 (PutUint32 v @ xs)) n = bit v n"
    by cases (auto simp add: Uint32_def PutUint32_def bit_simps)
qed

lemma Uint64_PutUint64: "Uint64 (PutUint64 v @ xs) = v"
proof (rule bit_word_eqI)
  fix n :: nat
  assume "n < LENGTH(64)"
  then consider "n < 8" | "8 \<le> n" "n < 16" | "16 \<le> n" "n < 24" | "24 \<le> n" "n < 32"
    | "32 \<le> n" "n < 40" | "40 \<le> n" "n < 48" | "48 \<le> n" "n < 56" | "56 \<le> n" "n < 64"
    by fastforce
  then show "bit (Uint64 (PutUint64 v @ xs)) n = bit v n"
    by cases (auto simp add: Uint64_def PutUint64_def bit_simps)
qed

lemma unat_of_nat16: "n \<le> MaxRecordSize \<Longrightarrow> unat (of_nat n :: 16 word) = n"
  by (simp add: unat_of_nat MaxRecordSize_def)

lemma unat_of_nat32: "n < 2 ^ 32 \<Longrightarrow> unat (of_nat n :: 32 word) = n"
  by (simp add: unat_of_nat)

lemma read_record_phys_record:
  assumes "length p \<le> MaxRecordSize"
    and "rt = RecordTypeFull \<or> rt = RecordTypeFirst \<or> rt = RecordTypeMiddle \<or> rt = RecordTypeLast"
  shows "read_record (phys_record rt p @ rest) = Some (rt, p, rest)"
proof -
  let ?c = "PutUint32 (ChecksumIEEE p)"
  let ?n = "PutUint16 (of_nat (length p))"
  let ?bs = "phys_record rt p @ rest"
  have bs: "?bs = ?c @ ?n @ [rt] @ p @ rest"
    by (simp add: phys_record_def record_header_def)
  have 1: "take 4 ?bs = ?c" by (simp add: bs)
  have 2: "take 2 (drop 4 ?bs) = ?n" by (simp add: bs)
  have 3: "?bs ! 6 = rt" by (simp add: bs nth_append)
  have 4: "drop HeaderSize ?bs = p @ rest" by (simp add: bs HeaderSize_def)
  have 5: "\<not> length ?bs < HeaderSize" by (simp add: bs HeaderSize_def)
  have 6: "Uint32 ?c = ChecksumIEEE p" using Uint32_PutUint32 [of _ "[]"] by simp
  have 7: "unat (Uint16 ?n) = length p"
    using Uint16_PutUint16 [of "of_nat (length p)" "[]"] unat_of_nat16 [OF assms(1)] by simp
  show ?thesis
    unfolding read_record_def Let_def 1 2 3 4 6 7
    using 5 assms by auto
qed

lemma decode_entry_payload:
  assumes "valid_op t" "length k < 2 ^ 32" "t \<noteq> OpTypeDelete \<Longrightarrow> length v < 2 ^ 32"
  shows "decode_entry (entry_payload t s k v) =
     Some \<lparr>SequenceNumber = s, Type = t, Key = k,
           Value = (if t = OpTypeDelete then [] else v), rawBytes = []\<rparr>"
proof -
  let ?p = "entry_payload t s k v"
  let ?tail = "if t \<noteq> OpTypeDelete then PutUint32 (of_nat (length v)) @ v else []"
  have p: "?p = [t] @ PutUint64 s @ PutUint32 (of_nat (length k)) @ k @ ?tail"
    by (simp add: entry_payload_def)
  have 0: "\<not> length ?p < 1 + 8 + 4" by (simp add: p)
  have 1: "?p ! 0 = t" by (simp add: p)
  have 2: "Uint64 (take 8 (drop 1 ?p)) = s"
    using Uint64_PutUint64 [of s "[]"] by (simp add: p)
  have 3: "unat (Uint32 (take 4 (drop 9 ?p))) = length k"
    using Uint32_PutUint32 [of "of_nat (length k)" "[]"] unat_of_nat32 [OF assms(2)]
    by (simp add: p)
  have 4: "drop 13 ?p = k @ ?tail" by (simp add: p)
  show ?thesis
  proof (cases "t = OpTypeDelete")
    case True
    with assms(1) show ?thesis
      unfolding decode_entry_def Let_def 1 2 3 4 using 0 by simp
  next
    case False
    have 5: "unat (Uint32 (take 4 (PutUint32 (of_nat (length v)) @ v))) = length v"
      using Uint32_PutUint32 [of "of_nat (length v)" "[]"] unat_of_nat32 [OF assms(3) [OF False]]
      by simp
    with False assms(1) show ?thesis
      unfolding decode_entry_def Let_def 1 2 3 4 using 0 by simp
  qed
qed

lemma record_types_distinct [simp]:
  "RecordTypeFull \<noteq> RecordTypeFirst" "RecordTypeFull \<noteq> RecordTypeMiddle"
  "RecordTypeFull \<noteq> RecordTypeLast" "RecordTypeFirst \<noteq> RecordTypeFull"
  "RecordTypeFirst \<noteq> RecordTypeMiddle" "RecordTypeFirst \<noteq> RecordTypeLast"
  "RecordTypeMiddle \<noteq> RecordTypeFull" "RecordTypeMiddle \<noteq> RecordTypeFirst"
  "RecordTypeMiddle \<noteq> RecordTypeLast" "RecordTypeLast \<noteq> RecordTypeFull"
  "RecordTypeLast \<noteq> RecordTypeFirst" "RecordTypeLast \<noteq> RecordTypeMiddle"
  by (simp_all add: RecordTypeFull_def RecordTypeFirst_def RecordTypeMiddle_def
      RecordTypeLast_def)

lemma phys_record_longer: "length rest < length (phys_record rt p @ rest)"
  by (simp add: phys_record_def record_header_def)

lemma segment_Full:
  assumes "length p \<le> MaxRecordSize"
  shows "segment_entries_from (phys_record RecordTypeFull p @ rest) pending
           = (case decode_entry p of None \<Rightarrow> [] | Some e \<Rightarrow> e # segment_entries_from rest None)"
  using assms phys_record_longer [of rest RecordTypeFull p]
  by (subst segment_entries_from.simps) (simp add: read_record_phys_record)

lemma segment_First:
  assumes "length p \<le> MaxRecordSize"
  shows "segment_entries_from (phys_record RecordTypeFirst p @ rest) pending
           = segment_entries_from rest (Some p)"
  using assms phys_record_longer [of rest RecordTypeFirst p]
  by (subst segment_entries_from.simps) (simp add: read_record_phys_record)

lemma segment_Middle:
  assumes "length p \<le> MaxRecordSize"
  shows "segment_entries_from (phys_record RecordTypeMiddle p @ rest) (Some buf)
           = segment_entries_from rest (Some (buf @ p))"
  using assms phys_record_longer [of rest RecordTypeMiddle p]
  by (subst segment_entries_from.simps) (simp add: read_record_phys_record)

lemma segment_Last:
  assumes "length p \<le> MaxRecordSize"
  shows "segment_entries_from (phys_record RecordTypeLast p @ rest) (Some buf)
           = (case decode_entry (buf @ p) of
                None \<Rightarrow> [] | Some e \<Rightarrow> e # segment_entries_from rest None)"
  using assms phys_record_longer [of rest RecordTypeLast p]
  by (subst segment_entries_from.simps) (simp add: read_record_phys_record)

lemma segment_Middles:
  "list_all (\<lambda>m. length m = MaxRecordSize) ms \<Longrightarrow>
     segment_entries_from (concat (map (phys_record RecordTypeMiddle) ms) @ rest) (Some buf)
       = segment_entries_from rest (Some (buf @ concat ms))"
proof (induction ms arbitrary: buf)
  case Nil
  then show ?case by simp
next
  case (Cons m ms)
  then have m: "length m \<le> MaxRecordSize" and ms: "list_all (\<lambda>m. length m = MaxRecordSize) ms"
    by simp_all
  show ?case
    using segment_Middle [OF m, of "concat (map (phys_record RecordTypeMiddle) ms) @ rest" buf]
      Cons.IH [OF ms, of "buf @ m"]
    by simp
qed

lemma first_fragment_remaining:
  "first_fragment t s k @ remaining_data t k v = entry_payload t s k v"
  by (simp add: first_fragment_def remaining_data_def entry_payload_def Let_def)

lemma segment_entry_written:
  assumes "entry_written t s k v out"
  shows "segment_entries_from (out @ rest) None =
     (case decode_entry (entry_payload t s k v) of
        None \<Rightarrow> [] | Some e \<Rightarrow> e # segment_entries_from rest None)"
proof (cases "entrySize t k v \<le> MaxRecordSize")
  case True
  with assms have out: "out = phys_record RecordTypeFull (entry_payload t s k v)"
    by (simp add: entry_written_def)
  show ?thesis
    unfolding out by (rule segment_Full) (simp add: True)
next
  case False
  with assms obtain ms lst where
    out: "out = phys_record RecordTypeFirst (first_fragment t s k) @
            concat (map (phys_record RecordTypeMiddle) ms) @ phys_record RecordTypeLast lst"
    and ms: "list_all (\<lambda>m. length m = MaxRecordSize) ms"
    and lst: "length lst \<le> MaxRecordSize"
    and cat: "concat ms @ lst = remaining_data t k v"
    by (auto simp: entry_written_def fragments_written_def)
  have lf: "length (first_fragment t s k) \<le> MaxRecordSize"
    by (simp add: length_first_fragment MaxRecordSize_def)
  have whole: "(first_fragment t s k @ concat ms) @ lst = entry_payload t s k v"
    using cat first_fragment_remaining [of t s k v] by simp
  have "segment_entries_from (out @ rest) None =
      segment_entries_from (concat (map (phys_record RecordTypeMiddle) ms) @
        phys_record RecordTypeLast lst @ rest) (Some (first_fragment t s k))"
    unfolding out using segment_First [OF lf] by simp
  also have "\<dots> = segment_entries_from (phys_record RecordTypeLast lst @ rest)
      (Some (first_fragment t s k @ concat ms))"
    by (rule segment_Middles [OF ms])
  also have "\<dots> = (case decode_entry (entry_payload t s k v) of
        None \<Rightarrow> [] | Some e \<Rightarrow> e # segment_entries_from rest None)"
    using segment_Last [OF lst, of rest "first_fragment t s k @ concat ms"] whole by simp
  finally show ?thesis .
qed

lemma segment_entries_from_Nil [simp]: "segment_entries_from [] pending = []"
  by (subst segment_entries_from.simps) (simp add: read_record_def HeaderSize_def)

lemma succeeded_simps [simp]: "succeeded (Inr s) = True" "succeeded (Inl e) = False"
  by (simp_all add: succeeded_def)

lemma Append_status:
  assumes "Append w t k v = (r, w')"
  shows "status w' = status w" and "r = Inr s \<Longrightarrow> status w = WALStatusActive"
proof -
  let ?w2 = "(warn_once (nextSequence w) w)\<lparr>nextSequence := nextSequence w + 1\<rparr>"
  obtain r2 w3 where a: "write_entry ?w2 t (nextSequence w) k v = (r2, w3)"
    by (cases "write_entry ?w2 t (nextSequence w) k v")
  have "status w3 = status w" using write_entry_effect(1) [OF a] by (simp add: ctl_def)
  with assms a show "status w' = status w"
    by (auto simp: Append_def Let_def split: if_splits)
  show "status w = WALStatusActive" if "r = Inr s"
    using that assms by (cases "status w") (auto simp: Append_def)
qed

lemma append_all_status: "append_all w xs = (rs, w') \<Longrightarrow> status w' = status w"
proof (induction xs arbitrary: w rs w')
  case Nil
  then show ?case by simp
next
  case (Cons x xs)
  obtain t k v where x: "x = (t, k, v)" by (cases x)
  obtain r w1 where a: "Append w t k v = (r, w1)" by (cases "Append w t k v")
  obtain rs1 w2 where b: "append_all w1 xs = (rs1, w2)" by (cases "append_all w1 xs")
  from Cons.prems x a b have "w2 = w'" by simp
  with Cons.IH [OF b] Append_status(1) [OF a] show ?case by simp
qed

lemma Append_valid_op: "Append w t k v = (Inr s, w') \<Longrightarrow> valid_op t"
  by (cases "status w") (auto simp: Append_def split: if_splits)

lemma append_all_decodes:
  assumes "append_all w xs = (rs, w')" "list_all succeeded rs" "list_all fits_format xs"
  shows "\<exists>out. stream w' = stream w @ out \<and>
     (\<forall>rest. segment_entries_from (out @ rest) None
               = map as_replayed (appended xs rs) @ segment_entries_from rest None)"
  using assms
proof (induction xs arbitrary: w rs w')
  case Nil
  then show ?case by simp
next
  case (Cons x xs)
  obtain t k v where x: "x = (t, k, v)" by (cases x)
  obtain r w1 where a: "Append w t k v = (r, w1)" by (cases "Append w t k v")
  obtain rs1 w2 where b: "append_all w1 xs = (rs1, w2)" by (cases "append_all w1 xs")
  from Cons.prems(1) x a b have rs: "rs = r # rs1" and w2: "w2 = w'" by simp_all
  from Cons.prems(2) rs obtain s where r: "r = Inr s" and ok1: "list_all succeeded rs1"
    by (cases r) simp_all
  from Cons.prems(3) x have fx: "fits_format (t, k, v)" and fits: "list_all fits_format xs"
    by simp_all
  from fx have fk: "length k < 2 ^ 32" and fv: "t \<noteq> OpTypeDelete \<Longrightarrow> length v < 2 ^ 32"
    by (simp_all add: fits_format_def)
  have vo: "valid_op t" using a r by (auto intro: Append_valid_op)
  from Append_effect(3) [OF a r] obtain out1 where
    o1: "stream w1 = stream w @ out1" "entry_written t s k v out1" by blast
  from Cons.IH [OF b ok1 fits] obtain out2 where
    o2: "stream w2 = stream w1 @ out2"
    "\<forall>rest. segment_entries_from (out2 @ rest) None
               = map as_replayed (appended xs rs1) @ segment_entries_from rest None" by blast
  have "stream w' = stream w @ (out1 @ out2)" using o1(1) o2(1) w2 by simp
  moreover have "\<forall>rest. segment_entries_from ((out1 @ out2) @ rest) None
               = map as_replayed (appended (x # xs) rs) @ segment_entries_from rest None"
    using segment_entry_written [OF o1(2)] decode_entry_payload [OF vo fk fv, of s] o2(2)
    by (simp add: x rs r as_replayed_def)
  ultimately show ?case by blast
qed

lemma Close_effect:
  "Close w = (None, w') \<Longrightarrow> file_data w' = (if status w = WALStatusClosed then file_data w else stream w)"
  by (auto simp: Close_def bufio_Flush_def file_Write_def file_Sync_def file_Close_def
      next_fault_def stream_def split: if_splits list.splits bool.splits prod.splits)

lemma appended_fields:
  "length rs = length xs \<Longrightarrow> list_all succeeded rs \<Longrightarrow>
     map (\<lambda>e. (Type e, Key e, Value e)) (appended xs rs) = xs \<and>
     map SequenceNumber (appended xs rs) = successes rs"
proof (induction xs arbitrary: rs)
  case Nil
  then show ?case by simp
next
  case (Cons x xs)
  obtain t k v where x: "x = (t, k, v)" by (cases x)
  from Cons.prems obtain s rs1 where rs: "rs = Inr s # rs1"
    and l: "length rs1 = length xs" and ok: "list_all succeeded rs1"
    by (cases rs; cases "hd rs") auto
  from Cons.IH [OF l ok] show ?case by (simp add: x rs)
qed

lemma length_append_all: "append_all w xs = (rs, w') \<Longrightarrow> length rs = length xs"
  by (induction xs arbitrary: w rs w') (auto split: prod.splits)


lemma Append_keeps_status: "status (snd (Append w t k v)) = status w"
  using Append_status(1) [of w t k v "fst (Append w t k v)" "snd (Append w t k v)"] by simp

lemma Append_next:
  assumes "status w = WALStatusActive" "valid_op t" "nextSequence w < MaxSequenceNumber" "healthy w"
  shows "nextSequence (snd (Append w t k v)) = nextSequence w + 1"
proof -
  have "Append w t k v = (Inr (nextSequence w), snd (Append w t k v))"
    using Append_succeeds(1) [OF assms, of k v] by (simp add: prod_eq_iff)
  from Append_effect(1) [OF this refl] show ?thesis by blast
qed

lemma Close_succeeds: "healthy w \<Longrightarrow> fst (Close w) = None"
  by (auto simp: Close_def bufio_Flush_def file_Write_def file_Sync_def file_Close_def
      next_fault_def healthy_def split: if_splits list.splits bool.splits prod.splits)

lemma op_types_distinct [simp]:
  "OpTypePut \<noteq> OpTypeDelete" "OpTypeDelete \<noteq> OpTypePut"
  "OpTypeMerge \<noteq> OpTypeDelete" "OpTypeDelete \<noteq> OpTypeMerge"
  "OpTypePut \<noteq> OpTypeMerge" "OpTypeMerge \<noteq> OpTypePut"
  by (simp_all add: OpTypePut_def OpTypeDelete_def OpTypeMerge_def)

lemma fits_format_example_writes: "list_all fits_format example_writes"
  by (simp add: example_writes_def fits_format_def)

lemma append_all_example_writes:
  "fst (append_all (NewWAL example_cfg []) example_writes) = [Inr 1, Inr 2, Inr 3]"
  "healthy (snd (append_all (NewWAL example_cfg []) example_writes))"
proof -
  let ?w0 = "NewWAL example_cfg []"
  let ?a1 = "Append ?w0 OpTypePut [] []"
  let ?w1 = "snd ?a1"
  let ?a2 = "Append ?w1 OpTypeDelete [1, 2] []"
  let ?w2 = "snd ?a2"
  let ?a3 = "Append ?w2 OpTypePut (replicate 8192 1) (replicate 131072 2)"
  have 1: "fst ?a1 = Inr 1" "healthy ?w1" "status ?w1 = WALStatusActive" "nextSequence ?w1 = 2"
    using Append_succeeds [of ?w0 OpTypePut "[]" "[]"] Append_next [of ?w0 OpTypePut "[]" "[]"]
    by (simp_all add: Append_keeps_status)
  have lt2: "(2 :: 64 word) < MaxSequenceNumber" "(3 :: 64 word) < MaxSequenceNumber"
    by (simp_all add: MaxSequenceNumber_eq)
  have 2: "fst ?a2 = Inr 2" "healthy ?w2" "status ?w2 = WALStatusActive" "nextSequence ?w2 = 3"
    using Append_succeeds [of ?w1 OpTypeDelete "[1, 2]" "[]"]
      Append_next [of ?w1 OpTypeDelete "[1, 2]" "[]"] 1 lt2
    by (simp_all add: Append_keeps_status)
  have 3: "fst ?a3 = Inr 3" "healthy (snd ?a3)"
    using Append_succeeds [of ?w2 OpTypePut "replicate 8192 1" "replicate 131072 2"] 2 lt2
    by simp_all
  show "fst (append_all ?w0 example_writes) = [Inr 1, Inr 2, Inr 3]"
    using 1(1) 2(1) 3(1) by (simp add: example_writes_def case_prod_beta)
  show "healthy (snd (append_all ?w0 example_writes))"
    using 3(2) by (simp add: example_writes_def case_prod_beta)
qed

text \<open>
  Appending to a new log, closing it and replaying the file: the handler receives the
  entries appended, a Delete without its value.
\<close>

lemma append_close_replay:
  assumes "stream w = []"
    and "append_all w xs = (rs, w1)"
    and "list_all succeeded rs"
    and "list_all fits_format xs"
    and "Close w1 = (None, w2)"
  shows "ReplayWALDir [file_data w2] collect [] = Inr (map as_replayed (appended xs rs)) \<and>
         dir_entries [file_data w2] = map as_replayed (appended xs rs) \<and>
         map (\<lambda>e. (Type e, Key e, Value e)) (appended xs rs) = xs \<and>
         map SequenceNumber (appended xs rs) = successes rs"
proof -
  from append_all_decodes [OF assms(2) assms(3) assms(4)] assms(1) obtain out where
    out: "stream w1 = out"
    "\<forall>rest. segment_entries_from (out @ rest) None
               = map as_replayed (appended xs rs) @ segment_entries_from rest None" by auto
  from out(2) [rule_format, of "[]"] have seg: "segment_entries out = map as_replayed (appended xs rs)"
    by (simp add: segment_entries_def)
  have fd: "file_data w2 = out"
  proof (cases xs)
    case Nil
    with assms(2) have "w1 = w" by simp
    with out(1) assms(1) have e: "out = []" "file_data w1 = []" by (simp_all add: stream_def)
    with Close_effect [OF assms(5)] out(1) show ?thesis by (simp split: if_splits)
  next
    case (Cons x xs')
    obtain t k v where x: "x = (t, k, v)" by (cases x)
    obtain r w' where a: "Append w t k v = (r, w')" by (cases "Append w t k v")
    obtain rs' w'' where b: "append_all w' xs' = (rs', w'')" by (cases "append_all w' xs'")
    from assms(2) Cons x a b have "rs = r # rs'" by simp
    with assms(3) obtain s where r: "r = Inr s" by (cases r) simp_all
    have "status w1 = WALStatusActive"
      using append_all_status [OF assms(2)] Append_status(2) [OF a r] by simp
    with Close_effect [OF assms(5)] out(1) show ?thesis by simp
  qed
  have coll: "replay_entries collect acc es = Inr (acc @ es)" for acc es
    by (induction es arbitrary: acc) (simp_all add: collect_def)
  show ?thesis
    using seg fd coll [of "[]"] appended_fields [OF length_append_all [OF assms(2)] assms(3)]
    by (simp add: ReplayWALDir_def dir_entries_def)
qed

lemma Append_on_new_log:
  assumes "valid_op t"
  shows "fst (Append (NewWAL c []) t k v) = Inr 1"
    and "append_all (NewWAL c []) [(t, k, v)] = ([Inr 1], snd (Append (NewWAL c []) t k v))"
    and "fst (Close (snd (Append (NewWAL c []) t k v))) = None"
proof -
  have lt: "(1 :: 64 word) < MaxSequenceNumber" by (simp add: MaxSequenceNumber_eq)
  have a: "fst (Append (NewWAL c []) t k v) = Inr 1" "healthy (snd (Append (NewWAL c []) t k v))"
    using Append_succeeds [of "NewWAL c []" t k v] assms lt by simp_all
  show "fst (Append (NewWAL c []) t k v) = Inr 1" by (rule a(1))
  show "append_all (NewWAL c []) [(t, k, v)] = ([Inr 1], snd (Append (NewWAL c []) t k v))"
    using a(1) by (simp add: case_prod_beta)
  show "fst (Close (snd (Append (NewWAL c []) t k v))) = None"
    using a(2) by (rule Close_succeeds)
qed

text \<open>
  A key of \<open>2\<^sup>3\<^sup>2\<close> bytes is written with the key length 0, and the payload does not
  decode.
\<close>

lemma length_huge_key: "length huge_key = 2 ^ 32"
  by (simp add: huge_key_def)

lemma take4_huge_key: "take 4 (huge_key @ xs) = [0, 0, 0, 0]"
proof -
  have r: "replicate 4 (0 :: 8 word) = [0, 0, 0, 0]" by (simp add: numeral_eq_Suc)
  have "take 4 (huge_key @ xs) = take 4 huge_key" by (simp add: length_huge_key)
  also have "\<dots> = replicate 4 0" unfolding huge_key_def take_replicate by simp
  finally show ?thesis using r by simp
qed

lemma decode_entry_zero_key_length:
  assumes "valid_op t" "t \<noteq> OpTypeDelete" "4 \<le> length r"
    and "unat (Uint32 (take 4 r)) \<noteq> length r - 4"
  shows "decode_entry ([t] @ PutUint64 s @ PutUint32 0 @ r) = None"
proof -
  let ?p = "[t] @ PutUint64 s @ PutUint32 0 @ r"
  have 0: "\<not> length ?p < 1 + 8 + 4" by simp
  have 1: "?p ! 0 = t" by simp
  have 3: "unat (Uint32 (take 4 (drop 9 ?p))) = 0"
    using Uint32_PutUint32 [of 0 "[]"] by simp
  have 4: "drop 13 ?p = r" by simp
  show ?thesis
    unfolding decode_entry_def Let_def 1 3 4 using 0 assms by simp
qed

lemma decode_huge_key: "decode_entry (entry_payload OpTypePut s huge_key []) = None"
proof -
  have z: "(of_nat (length huge_key) :: 32 word) = 0"
    by (simp add: length_huge_key)
  have p: "entry_payload OpTypePut s huge_key []
      = [OpTypePut] @ PutUint64 s @ PutUint32 0 @ (huge_key @ PutUint32 0)"
    by (simp add: entry_payload_def z)
  have 5: "unat (Uint32 (take 4 (huge_key @ PutUint32 0))) = 0"
    using Uint32_PutUint32 [of 0 "[]"] unfolding take4_huge_key by (simp add: PutUint32_def)
  have 6: "length (huge_key @ PutUint32 0) = 2 ^ 32 + 4"
    by (simp add: length_huge_key)
  have 7: "unat (Uint32 (take 4 (huge_key @ PutUint32 0))) \<noteq> length (huge_key @ PutUint32 0) - 4"
    unfolding 5 6 by simp
  have 8: "4 \<le> length (huge_key @ PutUint32 0)"
    unfolding 6 by simp
  show ?thesis
    unfolding p by (rule decode_entry_zero_key_length [OF valid_op_simps(1) op_types_distinct(1) 8 7])
qed

section \<open>Sequence numbers of appends\<close>

text \<open>
  Claim C1, amended. A successful \<^verbatim>\<open>Append\<close> returns the \<open>nextSequence\<close> held before the call
  and increases \<open>nextSequence\<close> by exactly 1, without wrapping; so the sequence numbers
  returned by the successful calls among successive calls of \<^verbatim>\<open>Append\<close> are strictly
  increasing. A successful \<^verbatim>\<open>AppendBatch\<close> of a non-empty batch returns the \<open>nextSequence\<close>
  held before the call, writes one Full record per entry, each with that same sequence
  number, in the order of the batch, and leaves \<open>nextSequence\<close> one above it.
\<close>

theorem wal_sequence_discipline:
  "(Append w t k v = (Inr s, w') \<longrightarrow>
      s = nextSequence w \<and> nextSequence w' = nextSequence w + 1 \<and> nextSequence w < nextSequence w') \<and>
   sorted_wrt (<) (successes (fst (append_all w xs))) \<and>
   (es \<noteq> [] \<and> AppendBatch w es = (Inr s, w') \<longrightarrow>
      s = nextSequence w \<and> nextSequence w' = nextSequence w + 1 \<and>
      stream w' = stream w @ concat (map (\<lambda>e.
        phys_record RecordTypeFull (entry_payload (Type e) s (Key e) (Value e))) es))"
proof (intro conjI impI)
  assume a: "Append w t k v = (Inr s, w')"
  from Append_effect(1) [OF a refl]
  show "s = nextSequence w" "nextSequence w' = nextSequence w + 1" "nextSequence w < nextSequence w'"
    by blast+
next
  show "sorted_wrt (<) (successes (fst (append_all w xs)))"
    using append_all_increasing [of w xs] by (cases "append_all w xs") simp
next
  assume b: "es \<noteq> [] \<and> AppendBatch w es = (Inr s, w')"
  then have b1: "AppendBatch w es = (Inr s, w')" and b2: "es \<noteq> []" by simp_all
  from AppendBatch_effect(2) [OF b1 refl b2]
  show "s = nextSequence w" "nextSequence w' = nextSequence w + 1"
    "stream w' = stream w @ concat (map (\<lambda>e.
        phys_record RecordTypeFull (entry_payload (Type e) s (Key e) (Value e))) es)"
    by (simp_all add: batch_written_def)
qed

text \<open>
  The claim as stated speaks of every call of \<^verbatim>\<open>AppendBatch\<close>. The call with an empty
  batch on a new log succeeds and returns \<open>nextSequence\<close>, and \<open>nextSequence\<close> is
  not advanced.
\<close>

theorem append_batch_always_advances_counterexample:
  "fst (AppendBatch (NewWAL example_cfg []) []) = Inr (nextSequence (NewWAL example_cfg [])) \<and>
   nextSequence (snd (AppendBatch (NewWAL example_cfg []) []))
     \<noteq> nextSequence (NewWAL example_cfg []) + 1"
  by (simp add: AppendBatch_def)

theorem wal_sequence_discipline_witness:
  "nextSequence (snd (Append (NewWAL example_cfg []) OpTypePut [107] [118])) = 2 \<and>
   fst (Append (NewWAL example_cfg []) OpTypePut [107] [118]) = Inr 1 \<and>
   nextSequence (snd (AppendBatch (NewWAL example_cfg []) example_batch)) = 2 \<and>
   stream (snd (AppendBatch (NewWAL example_cfg []) example_batch)) =
     phys_record RecordTypeFull (entry_payload OpTypePut 1 [97] [49]) @
     phys_record RecordTypeFull (entry_payload OpTypeDelete 1 [99] [])"
proof -
  let ?w = "NewWAL example_cfg []"
  have fa: "fst (Append ?w OpTypePut [107] [118]) = Inr 1"
    using Append_succeeds(1) [of ?w OpTypePut "[107]" "[118]"] by simp
  then have a: "Append ?w OpTypePut [107] [118] = (Inr 1, snd (Append ?w OpTypePut [107] [118]))"
    by (simp add: prod_eq_iff)
  have ne: "example_batch \<noteq> []" by (simp add: example_batch_def)
  have sz: "list_all (\<lambda>x. entrySize (Type x) (Key x) (Value x) \<le> MaxRecordSize) example_batch"
    by (simp add: example_batch_def entrySize_def MaxRecordSize_def)
  have fb: "fst (AppendBatch ?w example_batch) = Inr 1"
    using AppendBatch_succeeds(1) [of ?w example_batch] sz ne by simp
  then have b: "AppendBatch ?w example_batch = (Inr 1, snd (AppendBatch ?w example_batch))"
    by (simp add: prod_eq_iff)
  have 1: "nextSequence (snd (Append ?w OpTypePut [107] [118])) = 2"
    using wal_sequence_discipline [of ?w OpTypePut "[107]" "[118]" 1
            "snd (Append ?w OpTypePut [107] [118])" "[]" "[]"] a
    by simp
  have 2: "nextSequence (snd (AppendBatch ?w example_batch)) = 2 \<and>
      stream (snd (AppendBatch ?w example_batch)) =
        phys_record RecordTypeFull (entry_payload OpTypePut 1 [97] [49]) @
        phys_record RecordTypeFull (entry_payload OpTypeDelete 1 [99] [])"
    using wal_sequence_discipline [of ?w OpTypePut "[107]" "[118]" 1
            "snd (AppendBatch ?w example_batch)" "[]" example_batch] b ne
    by (simp add: example_batch_def)
  show ?thesis using 1 2 fa by simp
qed


section \<open>Append, then replay\<close>

text \<open>
  Claim C2, amended. Entries are appended with \<^verbatim>\<open>Append\<close> to a log that holds
  nothing yet, every call succeeds, and the log is closed without error; the key of every
  entry and the value of every entry but a Delete are shorter than \<open>2\<^sup>3\<^sup>2\<close> bytes, so that
  their lengths fit the 4-byte length fields. Then replaying the directory that holds the
  file delivers to the handler one entry for each call, in the order of the calls, with the
  op type and the key of the call and the sequence number the call returned; the value is
  the value of the call for every op but Delete, and empty for a Delete, whose value
  \<^verbatim>\<open>Append\<close> accepts and does not write. Keys and values may be empty, and an entry may be
  so large that it is written as First, Middle and Last fragments. The reader is modelled
  from the spec.
\<close>

theorem wal_append_replay_roundtrip:
  assumes "stream w = []"
    and "append_all w xs = (rs, w1)"
    and "list_all succeeded rs"
    and "list_all fits_format xs"
    and "Close w1 = (None, w2)"
  shows "ReplayWALDir [file_data w2] collect [] = Inr (dir_entries [file_data w2]) \<and>
         length (dir_entries [file_data w2]) = length xs \<and>
         map Type (dir_entries [file_data w2]) = map fst xs \<and>
         map Key (dir_entries [file_data w2]) = map (\<lambda>x. fst (snd x)) xs \<and>
         map Value (dir_entries [file_data w2])
           = map (\<lambda>x. if fst x = OpTypeDelete then [] else snd (snd x)) xs \<and>
         map SequenceNumber (dir_entries [file_data w2]) = successes rs"
proof -
  note r = append_close_replay [OF assms]
  have f: "map (\<lambda>e. (Type e, Key e, Value e)) (appended xs rs) = xs"
    and sq: "map SequenceNumber (appended xs rs) = successes rs"
    using r by simp_all
  have d: "dir_entries [file_data w2] = map as_replayed (appended xs rs)"
    using r by simp
  have t: "map Type (appended xs rs) = map fst xs"
    using arg_cong [OF f, of "map fst"] by (simp add: comp_def)
  have k: "map Key (appended xs rs) = map (\<lambda>x. fst (snd x)) xs"
    using arg_cong [OF f, of "map (\<lambda>x. fst (snd x))"] by (simp add: comp_def)
  have v: "map (\<lambda>e. if Type e = OpTypeDelete then [] else Value e) (appended xs rs)
      = map (\<lambda>x. if fst x = OpTypeDelete then [] else snd (snd x)) xs"
    using arg_cong [OF f, of "map (\<lambda>x. if fst x = OpTypeDelete then [] else snd (snd x))"]
    by (simp add: comp_def cong: if_cong)
  have l: "length (appended xs rs) = length xs"
    using arg_cong [OF f, of length] by simp
  show ?thesis
    using r t k v l sq unfolding d by (simp add: comp_def as_replayed_def)
qed

text \<open>
  The claim as stated fails at a Delete appended with a value: \<^verbatim>\<open>Append\<close> succeeds,
  returns sequence number 1 and tells the observers of an entry with the value \<open>[2]\<close>;
  \<^verbatim>\<open>Close\<close> succeeds; and the entry replayed has no value.
\<close>

theorem wal_roundtrip_delete_value_counterexample:
  "fst (Append (NewWAL example_cfg []) OpTypeDelete [1] [2]) = Inr 1 \<and>
   OnWALEntryWritten
     \<lparr>SequenceNumber = 1, Type = OpTypeDelete, Key = [1], Value = [2], rawBytes = []\<rparr>
     \<in> set (notifications (snd (Append (NewWAL example_cfg []) OpTypeDelete [1] [2]))) \<and>
   fst (Close (snd (Append (NewWAL example_cfg []) OpTypeDelete [1] [2]))) = None \<and>
   dir_entries
     [file_data (snd (Close (snd (Append (NewWAL example_cfg []) OpTypeDelete [1] [2]))))]
     = [\<lparr>SequenceNumber = 1, Type = OpTypeDelete, Key = [1], Value = [], rawBytes = []\<rparr>] \<and>
   map Value (dir_entries
     [file_data (snd (Close (snd (Append (NewWAL example_cfg []) OpTypeDelete [1] [2]))))])
     \<noteq> [[2]]"
proof -
  let ?w0 = "NewWAL example_cfg []"
  let ?a = "Append ?w0 OpTypeDelete [1] [2]"
  let ?c = "Close (snd ?a)"
  note n = Append_on_new_log [OF valid_op_simps(2), of example_cfg "[1]" "[2]"]
  have a: "?a = (Inr 1, snd ?a)" using n(1) by (simp add: prod_eq_iff)
  have c: "?c = (None, snd ?c)" using n(3) by (simp add: prod_eq_iff)
  have s: "list_all succeeded [Inr 1]" by simp
  have f: "list_all fits_format [(OpTypeDelete, [1], [2])]" by (simp add: fits_format_def)
  have e: "stream ?w0 = []" by simp
  have sz: "entrySize OpTypeDelete [1] [2] \<le> MaxRecordSize"
    by (simp add: entrySize_def MaxRecordSize_def)
  from Append_notifies [OF a sz] have m:
    "OnWALEntryWritten
       \<lparr>SequenceNumber = 1, Type = OpTypeDelete, Key = [1], Value = [2], rawBytes = []\<rparr>
       \<in> set (notifications (snd ?a))" by auto
  from append_close_replay [OF e n(2) s f c] n(1) n(3) m
  show ?thesis by (simp add: as_replayed_def)
qed

text \<open>
  The bound on the lengths is needed as well: the length of a key of \<open>2\<^sup>3\<^sup>2\<close> bytes is
  written as 0 in the 4-byte length field. \<^verbatim>\<open>Append\<close> and \<^verbatim>\<open>Close\<close> succeed, and the replay
  delivers no entry.
\<close>

lemma oversized_key_is_not_replayed:
  "fst (Append (NewWAL example_cfg []) OpTypePut huge_key []) = Inr 1 \<and>
   fst (Close (snd (Append (NewWAL example_cfg []) OpTypePut huge_key []))) = None \<and>
   dir_entries
     [file_data (snd (Close (snd (Append (NewWAL example_cfg []) OpTypePut huge_key []))))] = []"
proof -
  let ?w0 = "NewWAL example_cfg []"
  let ?a = "Append ?w0 OpTypePut huge_key []"
  let ?c = "Close (snd ?a)"
  note n = Append_on_new_log [OF valid_op_simps(1), of example_cfg huge_key "[]"]
  have a: "?a = (Inr 1, snd ?a)" using n(1) by (simp add: prod_eq_iff)
  have c: "?c = (None, snd ?c)" using n(3) by (simp add: prod_eq_iff)
  from Append_effect(3) [OF a refl] obtain out where
    o: "stream (snd ?a) = out" "entry_written OpTypePut 1 huge_key [] out" by auto
  have st: "status (snd ?a) = WALStatusActive" by (simp add: Append_keeps_status)
  have fd: "file_data (snd ?c) = out" using Close_effect [OF c] st o(1) by simp
  have "segment_entries out = []"
    using segment_entry_written [OF o(2), of "[]"] decode_huge_key [of 1]
    by (simp add: segment_entries_def)
  with fd n show ?thesis by (simp add: dir_entries_def)
qed

theorem wal_append_replay_roundtrip_witness:
  "map Type (dir_entries
     [file_data (snd (Close (snd (append_all (NewWAL example_cfg []) example_writes))))])
     = [OpTypePut, OpTypeDelete, OpTypePut] \<and>
   map SequenceNumber (dir_entries
     [file_data (snd (Close (snd (append_all (NewWAL example_cfg []) example_writes))))])
     = [1, 2, 3] \<and>
   map Key (dir_entries
     [file_data (snd (Close (snd (append_all (NewWAL example_cfg []) example_writes))))])
     = [[], [1, 2], replicate 8192 1] \<and>
   map Value (dir_entries
     [file_data (snd (Close (snd (append_all (NewWAL example_cfg []) example_writes))))])
     = [[], [], replicate 131072 2]"
proof -
  let ?w0 = "NewWAL example_cfg []"
  let ?r = "append_all ?w0 example_writes"
  let ?c = "Close (snd ?r)"
  have a: "?r = ([Inr 1, Inr 2, Inr 3], snd ?r)"
    using append_all_example_writes(1) by (simp add: prod_eq_iff)
  have c: "?c = (None, snd ?c)"
    using Close_succeeds [OF append_all_example_writes(2)] by (simp add: prod_eq_iff)
  have s: "list_all succeeded [Inr 1, Inr 2, Inr 3]" by simp
  have e: "stream ?w0 = []" by simp
  from wal_append_replay_roundtrip [OF e a s fits_format_example_writes c]
  show ?thesis by (simp add: example_writes_def)
qed

section \<open>The sequence overflow guard\<close>

text \<open>
  Claim C3, at the input where the code departs from it. On an Active log with
  \<open>nextSequence\<close> = 5 and no warning logged, \<^verbatim>\<open>AppendExactBytes\<close> is given an 8-byte framed
  record and the sequence number \<open>MaxSequenceNumber\<close>. The claim asks for the overflow error
  and for nothing written. The call succeeds instead: it returns \<open>MaxSequenceNumber\<close>, the
  eight bytes are written to the log, and \<open>nextSequence\<close> becomes \<open>MaxSequenceNumber + 1\<close>,
  above the bound the spec keeps it under. No warning is logged although \<open>nextSequence\<close>
  has passed the warning threshold, and none will be: the next \<^verbatim>\<open>Append\<close> fails with the
  overflow error before the warning is reached. \<^verbatim>\<open>AppendWithSequence\<close>, given the same
  sequence number on the same log, returns the overflow error and changes nothing.
  \<^verbatim>\<open>AppendExactBytes\<close> has no overflow guard and no warning, unlike the other four appends.
\<close>

theorem AppendExactBytes_bypasses_overflow_guard:
  "fst (AppendExactBytes (wal_at 5) example_raw MaxSequenceNumber) = Inr MaxSequenceNumber \<and>
   stream (wal_at 5) = [] \<and>
   stream (snd (AppendExactBytes (wal_at 5) example_raw MaxSequenceNumber)) = example_raw \<and>
   nextSequence (snd (AppendExactBytes (wal_at 5) example_raw MaxSequenceNumber))
     = MaxSequenceNumber + 1 \<and>
   SequenceWarningThreshold < MaxSequenceNumber + 1 \<and>
   \<not> overflowWarning (snd (AppendExactBytes (wal_at 5) example_raw MaxSequenceNumber)) \<and>
   warnings (snd (AppendExactBytes (wal_at 5) example_raw MaxSequenceNumber)) = 0 \<and>
   fst (Append (snd (AppendExactBytes (wal_at 5) example_raw MaxSequenceNumber))
          OpTypePut [107] [118]) = Inl ErrSequenceOverflow \<and>
   warnings (snd (Append (snd (AppendExactBytes (wal_at 5) example_raw MaxSequenceNumber))
          OpTypePut [107] [118])) = 0 \<and>
   AppendWithSequence (wal_at 5) OpTypePut [107] [118] MaxSequenceNumber
     = (Inl ErrSequenceOverflow, wal_at 5)"
proof -
  let ?r = "AppendExactBytes (wal_at 5) example_raw MaxSequenceNumber"
  have ok: "raw_ok example_raw"
    by (simp add: raw_ok_def example_raw_def HeaderSize_def declaredPayloadSize_def Uint16_def)
  have ne: "drop HeaderSize example_raw \<noteq> []"
    by (simp add: example_raw_def HeaderSize_def)
  have f: "fst ?r = Inr MaxSequenceNumber"
    using AppendExactBytes_succeeds [of "wal_at 5" example_raw MaxSequenceNumber] ok ne by simp
  then have p: "?r = (Inr MaxSequenceNumber, snd ?r)"
    by (simp add: prod_eq_iff)
  have le: "(5 :: 64 word) \<le> MaxSequenceNumber" by (simp add: MaxSequenceNumber_eq)
  have n: "nextSequence (snd ?r) = MaxSequenceNumber + 1"
    using AppendExactBytes_effect(2) [OF p refl] le by simp
  note wr = AppendExactBytes_writes [OF p]
  have ge: "MaxSequenceNumber \<le> MaxSequenceNumber + 1"
    by (simp add: MaxSequenceNumber_eq)
  have th: "SequenceWarningThreshold < MaxSequenceNumber + 1"
    by (simp add: MaxSequenceNumber_eq SequenceWarningThreshold_eq)
  have a: "Append (snd ?r) OpTypePut [107] [118] = (Inl ErrSequenceOverflow, snd ?r)"
    using wr(2) n ge by (simp add: Append_def)
  have s: "AppendWithSequence (wal_at 5) OpTypePut [107] [118] MaxSequenceNumber
     = (Inl ErrSequenceOverflow, wal_at 5)"
    by (simp add: AppendWithSequence_def)
  show ?thesis
    using f n wr th s unfolding a by simp
qed

subsection \<open>The appends that have the guard\<close>

text \<open>
  \<open>MaxSequenceNumber\<close> is \<open>2\<^sup>6\<^sup>4 - 1 - 10\<^sup>6\<close> and the warning threshold lies \<open>9 * 10\<^sup>6\<close> below
  it. On an Active log, each of the other four appends that would assign a sequence number
  at or above \<open>MaxSequenceNumber\<close> (\<^verbatim>\<open>Append\<close> and a non-empty \<^verbatim>\<open>AppendBatch\<close> by
  \<open>nextSequence\<close>, \<^verbatim>\<open>AppendWithSequence\<close> and a non-empty \<^verbatim>\<open>AppendBatchWithSequence\<close> by
  the number given) returns \<^verbatim>\<open>ErrSequenceOverflow\<close> and leaves the whole state unchanged,
  so nothing is written. An \<^verbatim>\<open>Append\<close> at or above the warning threshold and below the
  maximum sets the warning flag, logs the warning if and only if the flag was not yet set,
  and succeeds when no write fails. Once the flag is set no operation of the log clears
  it or logs the warning again; a log created by \<^verbatim>\<open>NewWAL\<close> has logged the warning once
  if the flag is set and never otherwise.
\<close>

lemma sequence_overflow_guard:
  "unat MaxSequenceNumber = 2 ^ 64 - 1 - 10 ^ 6 \<and>
   SequenceWarningThreshold = MaxSequenceNumber - 9 * 10 ^ 6 \<and>
   (status w = WALStatusActive \<longrightarrow>
      (valid_op t \<and> MaxSequenceNumber \<le> nextSequence w \<longrightarrow>
         Append w t k v = (Inl ErrSequenceOverflow, w)) \<and>
      (valid_op t \<and> MaxSequenceNumber \<le> s \<longrightarrow>
         AppendWithSequence w t k v s = (Inl ErrSequenceOverflow, w)) \<and>
      (es \<noteq> [] \<and> MaxSequenceNumber \<le> nextSequence w \<longrightarrow>
         AppendBatch w es = (Inl ErrSequenceOverflow, w)) \<and>
      (es \<noteq> [] \<and> MaxSequenceNumber \<le> s \<longrightarrow>
         AppendBatchWithSequence w es s = (Inl ErrSequenceOverflow, w)) \<and>
      (valid_op t \<and> SequenceWarningThreshold \<le> nextSequence w \<and>
       nextSequence w < MaxSequenceNumber \<longrightarrow>
         overflowWarning (snd (Append w t k v)) \<and>
         warnings (snd (Append w t k v)) =
           (if overflowWarning w then warnings w else warnings w + 1) \<and>
         (healthy w \<longrightarrow> fst (Append w t k v) = Inr (nextSequence w)))) \<and>
   (overflowWarning w \<longrightarrow>
      overflowWarning (run w ops) \<and> warnings (run w ops) = warnings w) \<and>
   warnings (run (NewWAL c faults) ops) =
     (if overflowWarning (run (NewWAL c faults) ops) then 1 else 0)"
proof (intro conjI impI)
  show "unat MaxSequenceNumber = 2 ^ 64 - 1 - 10 ^ 6"
    by (simp add: MaxSequenceNumber_eq)
  show "SequenceWarningThreshold = MaxSequenceNumber - 9 * 10 ^ 6"
    by (simp add: MaxSequenceNumber_eq SequenceWarningThreshold_eq)
  show "warnings (run (NewWAL c faults) ops) =
     (if overflowWarning (run (NewWAL c faults) ops) then 1 else 0)"
    by (rule run_warns_at_most_once) simp
next
  assume "overflowWarning w"
  then show "overflowWarning (run w ops)" "warnings (run w ops) = warnings w"
    using run_warning_flag_stays [of w ops] by simp_all
next
  assume a: "status w = WALStatusActive"
  { assume "valid_op t \<and> MaxSequenceNumber \<le> nextSequence w"
    with a show "Append w t k v = (Inl ErrSequenceOverflow, w)"
      by (simp add: Append_def) }
  { assume "valid_op t \<and> MaxSequenceNumber \<le> s"
    with a show "AppendWithSequence w t k v s = (Inl ErrSequenceOverflow, w)"
      by (simp add: AppendWithSequence_def) }
  { assume "es \<noteq> [] \<and> MaxSequenceNumber \<le> nextSequence w"
    with a show "AppendBatch w es = (Inl ErrSequenceOverflow, w)"
      by (simp add: AppendBatch_def) }
  { assume "es \<noteq> [] \<and> MaxSequenceNumber \<le> s"
    with a show "AppendBatchWithSequence w es s = (Inl ErrSequenceOverflow, w)"
      by (simp add: AppendBatchWithSequence_def) }
  { assume z: "valid_op t \<and> SequenceWarningThreshold \<le> nextSequence w \<and>
       nextSequence w < MaxSequenceNumber"
    with a Append_in_warning_zone [of w t k v]
    show "overflowWarning (snd (Append w t k v))"
      "warnings (snd (Append w t k v)) = (if overflowWarning w then warnings w else warnings w + 1)"
      by simp_all
    { assume "healthy w"
      with a z show "fst (Append w t k v) = Inr (nextSequence w)"
        by (simp add: Append_succeeds(1)) } }
qed

lemma sequence_overflow_guard_example:
  "Append (wal_at MaxSequenceNumber) OpTypePut [116] [118]
     = (Inl ErrSequenceOverflow, wal_at MaxSequenceNumber) \<and>
   AppendWithSequence (wal_at 1) OpTypePut [116] [118] MaxSequenceNumber
     = (Inl ErrSequenceOverflow, wal_at 1) \<and>
   AppendBatch (wal_at MaxSequenceNumber) example_batch
     = (Inl ErrSequenceOverflow, wal_at MaxSequenceNumber) \<and>
   AppendBatchWithSequence (wal_at 1) example_batch MaxSequenceNumber
     = (Inl ErrSequenceOverflow, wal_at 1) \<and>
   fst (Append (wal_at SequenceWarningThreshold) OpTypePut [116] [118])
     = Inr SequenceWarningThreshold \<and>
   overflowWarning (snd (Append (wal_at SequenceWarningThreshold) OpTypePut [116] [118])) \<and>
   warnings (snd (Append (wal_at SequenceWarningThreshold) OpTypePut [116] [118])) = 1 \<and>
   warnings (run (snd (Append (wal_at SequenceWarningThreshold) OpTypePut [116] [118]))
               [OpAppend OpTypePut [116] [118], OpUpdateNextSequence MaxSequenceNumber]) = 1"
proof -
  let ?w = "wal_at SequenceWarningThreshold"
  have ne: "example_batch \<noteq> []" by (simp add: example_batch_def)
  have lt: "SequenceWarningThreshold < MaxSequenceNumber"
    by (simp add: MaxSequenceNumber_eq SequenceWarningThreshold_eq)
  note g1 = sequence_overflow_guard [where w = "wal_at MaxSequenceNumber" and t = OpTypePut
      and s = MaxSequenceNumber and k = "[116]" and v = "[118]" and es = example_batch
      and ops = "[]" and c = example_cfg and faults = "[]"]
  note g2 = sequence_overflow_guard [where w = "wal_at 1" and t = OpTypePut
      and s = MaxSequenceNumber and k = "[116]" and v = "[118]" and es = example_batch
      and ops = "[]" and c = example_cfg and faults = "[]"]
  note g3 = sequence_overflow_guard [where w = ?w and t = OpTypePut
      and s = 0 and k = "[116]" and v = "[118]" and es = "[]"
      and ops = "[]" and c = example_cfg and faults = "[]"]
  have w: "overflowWarning (snd (Append ?w OpTypePut [116] [118]))"
    "warnings (snd (Append ?w OpTypePut [116] [118])) = 1"
    "fst (Append ?w OpTypePut [116] [118]) = Inr SequenceWarningThreshold"
    using g3 lt by simp_all
  note g4 = sequence_overflow_guard [where w = "snd (Append ?w OpTypePut [116] [118])"
      and t = OpTypePut and s = 0 and k = "[116]" and v = "[118]" and es = "[]"
      and ops = "[OpAppend OpTypePut [116] [118], OpUpdateNextSequence MaxSequenceNumber]"
      and c = example_cfg and faults = "[]"]
  show ?thesis using g1 g2 g4 w ne by simp
qed


section \<open>Point lookup in the memtable\<close>

text \<open>
  Claim C4. For a memtable built from a new one by any sequence of calls, and for every key:
  \<^verbatim>\<open>Get\<close> returns (nil, false) when the memtable holds no record for the key; when the
  newest record for the key (the one whose sequence number is above that of every other
  record for the key) is a tombstone it returns (nil, true), and when it is a Put it returns
  (its value, true). The records of the memtable are those that \<^verbatim>\<open>Put\<close> and \<^verbatim>\<open>Delete\<close>
  inserted while it was mutable. The skip list is modelled from the spec.
\<close>

theorem memtable_get_tristate:
  assumes "m = mem_run sz NewMemTable ops"
  shows
   "((\<forall>e \<in> set (records m). ekey e \<noteq> k) \<longrightarrow> Get m k = ([], False)) \<and>
    (\<forall>r \<in> set (records m).
       ekey r = k \<and> (\<forall>e \<in> set (records m). ekey e = k \<and> e \<noteq> r \<longrightarrow> seqNum e < seqNum r) \<longrightarrow>
         Get m k = (if valueType r = TypeDeletion then ([], True) else (evalue r, True))) \<and>
    (\<not> IsImmutable m \<longrightarrow>
       set (records (Put sz m k v s)) =
         insert \<lparr>ekey = k, evalue = v, valueType = TypeValue, seqNum = s\<rparr> (set (records m)) \<and>
       set (records (Delete sz m k s)) =
         insert \<lparr>ekey = k, evalue = [], valueType = TypeDeletion, seqNum = s\<rparr> (set (records m)))"
proof (intro conjI impI ballI)
  assume "\<forall>e \<in> set (records m). ekey e \<noteq> k"
  then have "find (\<lambda>e. ekey e = k) (records m) = None" by (simp add: find_absent)
  then show "Get m k = ([], False)" by (simp add: Get_eq)
next
  fix r
  assume r: "r \<in> set (records m)"
    and newest: "ekey r = k \<and>
      (\<forall>e \<in> set (records m). ekey e = k \<and> e \<noteq> r \<longrightarrow> seqNum e < seqNum r)"
  have sorted: "sorted_wrt entry_le (records m)"
    unfolding assms by (rule sorted_mem_run) simp
  from r newest have "find (\<lambda>e. ekey e = k) (records m) \<noteq> None"
    by (auto simp: find_absent)
  then obtain r0 where f: "find (\<lambda>e. ekey e = k) (records m) = Some r0" by auto
  from find_newest [OF sorted f] r newest have "seqNum r \<le> seqNum r0" "ekey r0 = k"
    "r0 \<in> set (records m)" by auto
  with newest have "r0 = r" by (metis not_le)
  with f show "Get m k = (if valueType r = TypeDeletion then ([], True) else (evalue r, True))"
    by (simp add: Get_eq)
next
  assume "\<not> IsImmutable m"
  then show "set (records (Put sz m k v s)) =
         insert \<lparr>ekey = k, evalue = v, valueType = TypeValue, seqNum = s\<rparr> (set (records m))"
    "set (records (Delete sz m k s)) =
         insert \<lparr>ekey = k, evalue = [], valueType = TypeDeletion, seqNum = s\<rparr> (set (records m))"
    by (simp_all add: records_Put records_Delete IsImmutable_def newEntry_def)
qed

lemma records_example_ops:
  "records (mem_run example_size NewMemTable example_ops) =
     [\<lparr>ekey = [107], evalue = [118], valueType = TypeValue, seqNum = 1\<rparr>,
      \<lparr>ekey = [120], evalue = [], valueType = TypeDeletion, seqNum = 3\<rparr>,
      \<lparr>ekey = [120], evalue = [121], valueType = TypeValue, seqNum = 2\<rparr>]"
  by (simp add: mem_run_def example_ops_def records_Put records_Delete NewMemTable_def
      Put_def Delete_def IsImmutable_def Let_def newEntry_def entry_less_def
      records_def Insert_def NewSkipList_def)

theorem memtable_get_tristate_witness:
  "Get (mem_run example_size NewMemTable example_ops) [107] = ([118], True) \<and>
   Get (mem_run example_size NewMemTable example_ops) [120] = ([], True) \<and>
   Get (mem_run example_size NewMemTable example_ops) [122] = ([], False)"
proof -
  let ?m = "mem_run example_size NewMemTable example_ops"
  note t = memtable_get_tristate [of ?m example_size example_ops, OF refl]
  have a: "Get ?m [107] = ([118], True)"
    using t [of "[107]" "[]" 0, THEN conjunct2, THEN conjunct1, THEN bspec,
        of "\<lparr>ekey = [107], evalue = [118], valueType = TypeValue, seqNum = 1\<rparr>"]
    by (simp add: records_example_ops)
  have b: "Get ?m [120] = ([], True)"
    using t [of "[120]" "[]" 0, THEN conjunct2, THEN conjunct1, THEN bspec,
        of "\<lparr>ekey = [120], evalue = [], valueType = TypeDeletion, seqNum = 3\<rparr>"]
    by (simp add: records_example_ops)
  have c: "Get ?m [122] = ([], False)"
    using t [of "[122]" "[]" 0, THEN conjunct1]
    by (simp add: records_example_ops)
  show ?thesis using a b c by simp
qed

section \<open>Immutable memtables\<close>

text \<open>
  Claim C5. After \<^verbatim>\<open>SetImmutable\<close>, \<^verbatim>\<open>IsImmutable\<close> is true and stays true over every
  sequence of later calls (\<^verbatim>\<open>Put\<close>, \<^verbatim>\<open>Delete\<close>, \<^verbatim>\<open>SetImmutable\<close>,
  \<^verbatim>\<open>ProcessWALEntry\<close>), and the memtable itself is unchanged by them: a \<^verbatim>\<open>Put\<close> or a
  \<^verbatim>\<open>Delete\<close> on an immutable memtable returns it as it is, with the same records, the
  same approximate size and the same next sequence number.
\<close>

theorem memtable_immutability_is_final:
  "IsImmutable (SetImmutable m) \<and>
   IsImmutable (mem_run sz (SetImmutable m) ops) \<and>
   mem_run sz (SetImmutable m) ops = SetImmutable m \<and>
   (IsImmutable m \<longrightarrow>
      Put sz m k v s = m \<and> Delete sz m k s = m \<and>
      records (Put sz m k v s) = records m \<and> records (Delete sz m k s) = records m \<and>
      ApproximateSize (Put sz m k v s) = ApproximateSize m \<and>
      ApproximateSize (Delete sz m k s) = ApproximateSize m \<and>
      GetNextSequenceNumber (Put sz m k v s) = GetNextSequenceNumber m \<and>
      GetNextSequenceNumber (Delete sz m k s) = GetNextSequenceNumber m \<and>
      IsImmutable (Put sz m k v s) \<and> IsImmutable (Delete sz m k s))"
proof -
  have i: "immutable (SetImmutable m)" by (simp add: SetImmutable_def)
  have r: "mem_run sz (SetImmutable m) ops = SetImmutable m"
    using i by (rule mem_run_immutable)
  show ?thesis
    using i r by (simp add: IsImmutable_def immutable_no_op)
qed

theorem memtable_immutability_is_final_witness:
  "Put example_size (SetImmutable (mem_run example_size NewMemTable example_ops)) [97] [98] 9
     = SetImmutable (mem_run example_size NewMemTable example_ops) \<and>
   Delete example_size (SetImmutable (mem_run example_size NewMemTable example_ops)) [107] 9
     = SetImmutable (mem_run example_size NewMemTable example_ops) \<and>
   Get (Delete example_size (SetImmutable (mem_run example_size NewMemTable example_ops)) [107] 9)
     [107] = Get (SetImmutable (mem_run example_size NewMemTable example_ops)) [107]"
proof -
  let ?m = "SetImmutable (mem_run example_size NewMemTable example_ops)"
  have i: "IsImmutable ?m" by (simp add: IsImmutable_def SetImmutable_def)
  show ?thesis
    using memtable_immutability_is_final [of ?m example_size "[]" "[97]" "[98]" 9]
      memtable_immutability_is_final [of ?m example_size "[]" "[107]" "[]" 9] i
    by simp
qed


section \<open>Fragmentation\<close>



section \<open>Rejections outside the Active status\<close>

text \<open>
  Claim C7. Every function of the append family (\<^verbatim>\<open>Append\<close>, \<^verbatim>\<open>AppendWithSequence\<close>,
  \<^verbatim>\<open>AppendBatch\<close>, \<^verbatim>\<open>AppendBatchWithSequence\<close>, \<^verbatim>\<open>AppendExactBytes\<close>) called while the
  status is Rotating returns \<^verbatim>\<open>ErrWALRotating\<close>, and called while the status is Closed
  returns \<^verbatim>\<open>ErrWALClosed\<close>; in both cases the whole state of the log is unchanged, so
  nothing is written and \<open>nextSequence\<close> keeps its value.
\<close>

theorem append_family_rejected_when_not_active:
  "(status w = WALStatusRotating \<longrightarrow>
      Append w t k v = (Inl ErrWALRotating, w) \<and>
      AppendWithSequence w t k v s = (Inl ErrWALRotating, w) \<and>
      AppendBatch w es = (Inl ErrWALRotating, w) \<and>
      AppendBatchWithSequence w es s = (Inl ErrWALRotating, w) \<and>
      AppendExactBytes w raw s = (Inl ErrWALRotating, w)) \<and>
   (status w = WALStatusClosed \<longrightarrow>
      Append w t k v = (Inl ErrWALClosed, w) \<and>
      AppendWithSequence w t k v s = (Inl ErrWALClosed, w) \<and>
      AppendBatch w es = (Inl ErrWALClosed, w) \<and>
      AppendBatchWithSequence w es s = (Inl ErrWALClosed, w) \<and>
      AppendExactBytes w raw s = (Inl ErrWALClosed, w))"
  by (simp add: Append_def AppendWithSequence_def AppendBatch_def
      AppendBatchWithSequence_def AppendExactBytes_def)

theorem append_family_rejected_when_not_active_witness:
  "Append (SetRotating (NewWAL example_cfg [])) OpTypePut [1] [2]
     = (Inl ErrWALRotating, SetRotating (NewWAL example_cfg [])) \<and>
   AppendExactBytes (SetRotating (NewWAL example_cfg [])) [0, 0, 0, 0, 0, 0, 1] 7
     = (Inl ErrWALRotating, SetRotating (NewWAL example_cfg [])) \<and>
   AppendBatch (snd (Close (NewWAL example_cfg []))) []
     = (Inl ErrWALClosed, snd (Close (NewWAL example_cfg []))) \<and>
   AppendWithSequence (snd (Close (NewWAL example_cfg []))) OpTypePut [1] [2] 9
     = (Inl ErrWALClosed, snd (Close (NewWAL example_cfg [])))"
proof -
  have r: "status (SetRotating (NewWAL example_cfg [])) = WALStatusRotating"
    by (simp add: SetRotating_def)
  have c: "status (snd (Close (NewWAL example_cfg []))) = WALStatusClosed"
    by (simp add: Close_def NewWAL_def bufio_Flush_def file_Sync_def file_Close_def
        next_fault_def)
  show ?thesis
    using append_family_rejected_when_not_active
            [of "SetRotating (NewWAL example_cfg [])" OpTypePut "[1]" "[2]" 7 "[]"
                "[0, 0, 0, 0, 0, 0, 1]"]
          append_family_rejected_when_not_active
            [of "snd (Close (NewWAL example_cfg []))" OpTypePut "[1]" "[2]" 9 "[]" "[]"]
          r c
    by simp
qed

section \<open>The empty batch\<close>

text \<open>
  Claim C10. \<^verbatim>\<open>AppendBatch\<close> with an empty slice on an Active log succeeds: it returns the
  current \<open>nextSequence\<close> and no error, and the whole state (the records written,
  \<open>nextSequence\<close>, everything else) is unchanged. \<^verbatim>\<open>AppendBatchWithSequence\<close> with an
  empty slice returns the given start sequence and changes nothing.
\<close>

theorem empty_batch_is_a_successful_no_op:
  "status w = WALStatusActive \<Longrightarrow>
     AppendBatch w [] = (Inr (nextSequence w), w) \<and>
     AppendBatchWithSequence w [] startSequence = (Inr startSequence, w)"
  by (simp add: AppendBatch_def AppendBatchWithSequence_def)

theorem empty_batch_is_a_successful_no_op_witness:
  "AppendBatch (NewWAL example_cfg []) [] = (Inr 1, NewWAL example_cfg []) \<and>
   AppendBatchWithSequence (NewWAL example_cfg []) [] 42 = (Inr 42, NewWAL example_cfg [])"
proof -
  have a: "status (NewWAL example_cfg []) = WALStatusActive"
    by (simp add: NewWAL_def)
  have n: "nextSequence (NewWAL example_cfg []) = 1"
    by (simp add: NewWAL_def)
  show ?thesis
    using empty_batch_is_a_successful_no_op [OF a, of 42] n by simp
qed


section \<open>Caller-supplied sequence numbers\<close>

text \<open>
  Claim C8, at the input where the code departs from it. On an Active log with
  \<open>nextSequence\<close> = 5, \<^verbatim>\<open>AppendExactBytes\<close> is given an 8-byte record whose header declares
  one payload byte, and the largest sequence number, \<open>2\<^sup>6\<^sup>4 - 1\<close>. The call succeeds and
  \<open>nextSequence\<close> wraps around to 0, where the claim asks for the maximum of 5 and
  \<open>seq + 1\<close>. The function has no overflow guard, unlike the other four appends. For every
  other \<open>seq\<close> the law of the claim holds (lemma \<open>AppendExactBytes_max_law\<close>);
  \<^verbatim>\<open>AppendWithSequence\<close> obeys it always (lemma \<open>AppendWithSequence_effect\<close>, where the
  overflow guard keeps \<open>seq + 1\<close> from wrapping); and a raw record whose declared payload
  length does not match the buffer is rejected (lemma \<open>AppendExactBytes_rejects\<close>).
\<close>

theorem AppendExactBytes_wraps_nextSequence:
  "fst (AppendExactBytes (wal_at 5) example_raw (- 1)) = Inr (- 1) \<and>
   nextSequence (snd (AppendExactBytes (wal_at 5) example_raw (- 1))) = 0 \<and>
   max (nextSequence (wal_at 5)) (- 1 + 1) = 5"
proof -
  have ok: "raw_ok example_raw"
    by (simp add: raw_ok_def example_raw_def HeaderSize_def declaredPayloadSize_def Uint16_def)
  have ne: "drop HeaderSize example_raw \<noteq> []"
    by (simp add: example_raw_def HeaderSize_def)
  have f: "fst (AppendExactBytes (wal_at 5) example_raw (- 1)) = Inr (- 1)"
    using AppendExactBytes_succeeds [of "wal_at 5" example_raw "- 1"] ok ne by simp
  then have "AppendExactBytes (wal_at 5) example_raw (- 1)
      = (Inr (- 1), snd (AppendExactBytes (wal_at 5) example_raw (- 1)))"
    by (simp add: prod_eq_iff)
  from AppendExactBytes_effect(2) [OF this refl] f show ?thesis by simp
qed

section \<open>Recovery: segmentation and cap\<close>

text \<open>
  Claim C9. The handler of \<^verbatim>\<open>RecoverFromWAL\<close> skips an entry whose sequence number is
  above the configured maximum (the state is unchanged). For any other entry, when the
  approximate size of the current (last) memtable has reached \<open>MemTableSize\<close>: if one more
  memtable does not exceed \<open>MaxMemTables\<close>, the current memtable is marked immutable and the
  entry is applied to a new memtable appended to the pool; if it would, the handler returns
  an error and recovery fails with it. Below \<open>MemTableSize\<close> the entry is applied to the current
  memtable. When recovery succeeds, the sequence number it returns is the maximum over the
  entries not skipped (0 when there is none), and the pool holds one memtable or at most
  \<open>MaxMemTables\<close>, all immutable but the last.
\<close>

theorem recovery_segmentation_and_cap:
  "(SequenceNumber e > optMaxSequenceNumber opts \<longrightarrow>
      entryHandler opts sz (mts, mx) e = Inr (mts, mx)) \<and>
   (\<not> SequenceNumber e > optMaxSequenceNumber opts \<and> mts \<noteq> [] \<longrightarrow>
      (ApproximateSize (last mts) \<ge> optMemTableSize opts \<and>
       int (length mts) + 1 \<le> optMaxMemTables opts \<longrightarrow>
         entryHandler opts sz (mts, mx) e =
           Inr (butlast mts @ [SetImmutable (last mts), ProcessWALEntry sz NewMemTable e],
                max mx (SequenceNumber e))) \<and>
      (ApproximateSize (last mts) \<ge> optMemTableSize opts \<and>
       int (length mts) + 1 > optMaxMemTables opts \<longrightarrow>
         entryHandler opts sz (mts, mx) e = Inl (MaxMemTablesExceeded (optMaxMemTables opts)) \<and>
         (opts = options_in_force c given \<and>
          replay_entries (entryHandler opts sz) ([NewMemTable], 0) before = Inr (mts, mx) \<longrightarrow>
            RecoverFromWAL c given sz (before @ e # after) =
              Inl (ReplayFailed (MaxMemTablesExceeded (optMaxMemTables opts))))) \<and>
      (ApproximateSize (last mts) < optMemTableSize opts \<longrightarrow>
         entryHandler opts sz (mts, mx) e =
           Inr (butlast mts @ [ProcessWALEntry sz (last mts) e], max mx (SequenceNumber e)))) \<and>
   (opts = options_in_force c given \<and> RecoverFromWAL c given sz es = Inr (mts', mx') \<longrightarrow>
      mx' = max_seq (replayed opts es) \<and>
      mts' \<noteq> [] \<and> (length mts' = 1 \<or> int (length mts') \<le> optMaxMemTables opts) \<and>
      list_all IsImmutable (butlast mts') \<and> \<not> IsImmutable (last mts'))"
proof (intro conjI impI)
  assume "opts = options_in_force c given \<and> RecoverFromWAL c given sz es = Inr (mts', mx')"
  then have r: "replay_entries (entryHandler opts sz) ([NewMemTable], 0) es = Inr (mts', mx')"
    by (auto simp: RecoverFromWAL_def split: sum.splits)
  have "pool_ok opts [NewMemTable]"
    by (simp add: pool_ok_def IsImmutable_def NewMemTable_def)
  from replay_entries_invariant [OF r this]
  show "mx' = max_seq (replayed opts es)" "mts' \<noteq> []"
    "length mts' = 1 \<or> int (length mts') \<le> optMaxMemTables opts"
    "list_all IsImmutable (butlast mts')" "\<not> IsImmutable (last mts')"
    by (simp_all add: pool_ok_def max_seq_def)
next
  assume a: "\<not> SequenceNumber e > optMaxSequenceNumber opts \<and> mts \<noteq> []"
    and b: "ApproximateSize (last mts) \<ge> optMemTableSize opts \<and>
       int (length mts) + 1 > optMaxMemTables opts"
    and c: "opts = options_in_force c given \<and>
       replay_entries (entryHandler opts sz) ([NewMemTable], 0) before = Inr (mts, mx)"
  from a b have "entryHandler opts sz (mts, mx) e = Inl (MaxMemTablesExceeded (optMaxMemTables opts))"
    by (simp add: entryHandler_cases)
  moreover from c have "options_in_force c given = opts"
    and "replay_entries (entryHandler opts sz) ([NewMemTable], 0) before = Inr (mts, mx)"
    by blast+
  ultimately show "RecoverFromWAL c given sz (before @ e # after) =
              Inl (ReplayFailed (MaxMemTablesExceeded (optMaxMemTables opts)))"
    by (simp add: RecoverFromWAL_def replay_entries_append)
qed (simp_all add: entryHandler_cases)

theorem recovery_segmentation_and_cap_witness:
  "entryHandler (example_opts 2) example_size ([memtable_a], 3) entry_late
     = Inr ([memtable_a], 3) \<and>
   entryHandler (example_opts 2) example_size ([memtable_a], 3) entry_b
     = Inr ([SetImmutable memtable_a, ProcessWALEntry example_size NewMemTable entry_b], 4) \<and>
   RecoverFromWAL example_cfg (Some (example_opts 1)) example_size [entry_a, entry_b, entry_late]
     = Inl (ReplayFailed (MaxMemTablesExceeded 1)) \<and>
   entryHandler (example_opts 2) example_size ([NewMemTable], 0) entry_a
     = Inr ([memtable_a], 3) \<and>
   RecoverFromWAL example_cfg (Some (example_opts 2)) example_size [entry_a, entry_b, entry_late]
     = Inr ([SetImmutable memtable_a, ProcessWALEntry example_size NewMemTable entry_b],
            max_seq (replayed (example_opts 2) [entry_a, entry_b, entry_late])) \<and>
   max_seq (replayed (example_opts 2) [entry_a, entry_b, entry_late]) = 4"
proof -
  let ?m2 = "[SetImmutable memtable_a, ProcessWALEntry example_size NewMemTable entry_b]"
  have late: "SequenceNumber entry_late > optMaxSequenceNumber (example_opts n)" for n
    by (simp add: entry_late_def example_opts_def)
  have nb: "\<not> SequenceNumber entry_b > optMaxSequenceNumber (example_opts n)" for n
    by (simp add: entry_b_def example_opts_def)
  have na: "\<not> SequenceNumber entry_a > optMaxSequenceNumber (example_opts n)" for n
    by (simp add: entry_a_def example_opts_def)
  have sz: "ApproximateSize (last [memtable_a]) \<ge> optMemTableSize (example_opts n)" for n
    by (simp add: memtable_a_size example_opts_def)
  have sz0: "ApproximateSize (last [NewMemTable]) < optMemTableSize (example_opts n)" for n
    by (simp add: ApproximateSize_def NewMemTable_def NewSkipList_def example_opts_def)
  have mx: "max 3 (SequenceNumber entry_b) = (4 :: 64 word)" "max 0 (SequenceNumber entry_a) = (3 :: 64 word)"
    by (simp_all add: entry_b_def entry_a_def)
  note t2 = recovery_segmentation_and_cap [where opts = "example_opts 2" and sz = example_size
      and mts = "[memtable_a]" and mx = 3 and c = example_cfg]
  have 1: "entryHandler (example_opts 2) example_size ([memtable_a], 3) entry_late
     = Inr ([memtable_a], 3)"
    using t2 [where e = entry_late] late by blast
  have 2: "entryHandler (example_opts 2) example_size ([memtable_a], 3) entry_b = Inr (?m2, 4)"
    using t2 [where e = entry_b] nb [of 2] sz [of 2] mx by (simp add: example_opts_def)
  have 3: "RecoverFromWAL example_cfg (Some (example_opts 1)) example_size
      ([entry_a] @ entry_b # [entry_late]) = Inl (ReplayFailed (MaxMemTablesExceeded 1))"
    using recovery_segmentation_and_cap [where opts = "example_opts 1" and sz = example_size
      and mts = "[memtable_a]" and mx = 3 and c = example_cfg and e = entry_b
      and before = "[entry_a]" and after = "[entry_late]" and given = "Some (example_opts 1)"]
      nb [of 1] sz [of 1] replay_a [of 1]
    by (simp add: example_opts_def options_in_force_def)
  have 4: "entryHandler (example_opts 2) example_size ([NewMemTable], 0) entry_a
     = Inr ([memtable_a], 3)"
    using recovery_segmentation_and_cap [where opts = "example_opts 2" and sz = example_size
      and mts = "[NewMemTable]" and mx = 0 and c = example_cfg and e = entry_a]
      na [of 2] sz0 [of 2] mx
    by (simp add: memtable_a_def)
  have r: "RecoverFromWAL example_cfg (Some (example_opts 2)) example_size
      [entry_a, entry_b, entry_late] = Inr (?m2, 4)"
    using 1 2 4
    by (simp add: RecoverFromWAL_def options_in_force_def entryHandler_cases late nb na)
  have 5: "4 = max_seq (replayed (example_opts 2) [entry_a, entry_b, entry_late])"
    using recovery_segmentation_and_cap [where opts = "example_opts 2" and sz = example_size
      and c = example_cfg and es = "[entry_a, entry_b, entry_late]" and mts' = ?m2 and mx' = 4
      and given = "Some (example_opts 2)"] r
    by (simp add: options_in_force_def)
  show ?thesis using 1 2 3 4 5 r by simp
qed

end
